theory Spec2Isabelle
  imports Main "HOL-Library.Sublist" "HOL-Library.Log_Nat"
begin

section \<open>The host page: document tree, listeners, events\<close>

text \<open>
  \<^verbatim>\<open>src/basic.js\<close> consists of calls into the browser: \<^verbatim>\<open>querySelectorAll\<close>,
  \<^verbatim>\<open>NodeList.forEach\<close>, \<^verbatim>\<open>addEventListener\<close>, \<^verbatim>\<open>preventDefault\<close>, \<^verbatim>\<open>textContent\<close> and
  \<^verbatim>\<open>alert\<close>. This section writes down the part of the DOM and HTML standards those calls
  rely on; the next section embeds the script itself.

  The document is a tree of element and text nodes. A node is referred to by its position,
  the list of child indices leading to it from the root element. The only mutation of the
  tree that is modelled appends a last child, which leaves the position of every node that
  already exists unchanged, so a position identifies a node for as long as the page lives.
\<close>

type_synonym node_ref = "nat list"

datatype node = Element (localName: string) (childNodes: "node list") | Text (data: string)

text \<open>\<^verbatim>\<open>node.textContent\<close>: the data of all text descendants, concatenated in tree order.\<close>

fun textContent :: "node \<Rightarrow> string" where
  "textContent (Text s) = s"
| "textContent (Element t cs) = concat (map textContent cs)"

text \<open>Following a reference from the root; \<open>None\<close> when no node stands at that position.\<close>

fun node_at :: "node \<Rightarrow> node_ref \<Rightarrow> node option" where
  "node_at n [] = Some n"
| "node_at (Text s) (i # r) = None"
| "node_at (Element t cs) (i # r) = (if i < length cs then node_at (cs ! i) r else None)"

text \<open>
  Selector matching for a chain of type selectors joined by descendant combinators, the
  shape of \<^verbatim>\<open>"nav a"\<close>, given as the list of its type selectors. The walk is in tree
  order; the list holds the part of the chain that the ancestors met so far have not
  matched yet, and an element is selected when only the last selector is left and its tag
  is that selector. Each element is visited once, so it is selected at most once, however
  many of its ancestors match.
\<close>

fun matching :: "string list \<Rightarrow> node \<Rightarrow> node_ref list"
  and matching_children :: "string list \<Rightarrow> nat \<Rightarrow> node list \<Rightarrow> node_ref list" where
  "matching sel (Text s) = []"
| "matching [] (Element t cs) = []"
| "matching [s] (Element t cs) = (if t = s then [[]] else []) @ matching_children [s] 0 cs"
| "matching (s # s' # ss) (Element t cs) =
     matching_children (if t = s then s' # ss else s # s' # ss) 0 cs"
| "matching_children sel i [] = []"
| "matching_children sel i (c # cs) =
     map ((#) i) (matching sel c) @ matching_children sel (Suc i) cs"

definition querySelectorAll :: "node \<Rightarrow> string list \<Rightarrow> node_ref list" where
  "querySelectorAll doc sel = matching sel doc"

text \<open>
  An event listener as the DOM keeps it: the target it is registered on, the event type and
  the callback. The only callbacks of this page are the closures that the script creates;
  such a closure is a function object with an identity of its own (\<open>fn_id\<close>) and one
  captured variable, the \<^verbatim>\<open>link\<close> of the script, whose value is kept in \<open>captured\<close>.
\<close>

record listener =
  on_node :: node_ref
  event_type :: string
  fn_id :: nat
  captured :: node_ref

text \<open>
  What the user can observe of a handler, in the order it happens: the calls of
  \<^verbatim>\<open>preventDefault\<close> and the dialogs shown by \<^verbatim>\<open>alert\<close>.
\<close>

datatype effect = PreventDefault | Alert string

record page =
  document :: node
  listeners :: "listener list"
  next_fn :: nat
  trace :: "effect list"
  navigated :: bool

record event =
  etype :: string
  target :: node_ref
  cancelable :: bool
  canceled :: bool

text \<open>A page that has just loaded \<open>doc\<close>: no listener yet, nothing shown, no navigation.\<close>

definition loaded :: "node \<Rightarrow> page" where
  "loaded doc = \<lparr>document = doc, listeners = [], next_fn = 0, trace = [], navigated = False\<rparr>"

text \<open>Evaluating a function expression allocates a function object with a new identity.\<close>

definition new_function :: "page \<Rightarrow> nat \<times> page" where
  "new_function p = (next_fn p, p\<lparr>next_fn := Suc (next_fn p)\<rparr>)"

text \<open>
  \<^verbatim>\<open>target.addEventListener(type, callback)\<close>: the listener is appended to the target's list
  unless the list already holds one with the same type and the same callback object.
\<close>

definition addEventListener :: "node_ref \<Rightarrow> string \<Rightarrow> nat \<times> node_ref \<Rightarrow> page \<Rightarrow> page" where
  "addEventListener el ty cb p =
     (if \<exists>l \<in> set (listeners p). on_node l = el \<and> event_type l = ty \<and> fn_id l = fst cb
      then p
      else p\<lparr>listeners := listeners p @
             [\<lparr>on_node = el, event_type = ty, fn_id = fst cb, captured = snd cb\<rparr>]\<rparr>)"

text \<open>\<^verbatim>\<open>e.preventDefault()\<close> sets the canceled flag of a cancelable event.\<close>

definition preventDefault :: "event \<times> page \<Rightarrow> event \<times> page" where
  "preventDefault ep =
     (let (e, p) = ep
      in (if cancelable e then e\<lparr>canceled := True\<rparr> else e, p\<lparr>trace := trace p @ [PreventDefault]\<rparr>))"

text \<open>\<^verbatim>\<open>alert(msg)\<close> shows a dialog with the message and returns when it is dismissed.\<close>

definition alert :: "string \<Rightarrow> page \<Rightarrow> page" where
  "alert msg p = p\<lparr>trace := trace p @ [Alert msg]\<rparr>"

text \<open>
  Dispatch of an event. The listeners of one target that are registered for the event's type
  run in the order of their registration. A callback of this page is a closure of the
  click listener of the script, \<open>handler\<close> below, applied to the variable it captured.
\<close>

definition listeners_on :: "page \<Rightarrow> node_ref \<Rightarrow> string \<Rightarrow> listener list" where
  "listeners_on p el ty = filter (\<lambda>l. on_node l = el \<and> event_type l = ty) (listeners p)"

section \<open>The script of \<^verbatim>\<open>src/basic.js\<close>\<close>

text \<open>
  The click listener, lines 4 to 7:
  \<^verbatim>\<open>function (e) { e.preventDefault(); alert(`You clicked on ${link.textContent}`); }\<close>
  \<open>link\<close> is the variable of the enclosing \<^verbatim>\<open>forEach\<close> callback; the element it refers to
  is read when the handler runs, so the text is the one the element has at that time. The
  handler returns nothing; what is returned here is the event and the page as the handler
  leaves them. Nodes are only ever added to the document, so a reference that
  \<^verbatim>\<open>querySelectorAll\<close> returned stays a node of it; \<open>None\<close> is the result for a reference
  that is no node of the document, which no listener of the script holds.
\<close>

definition handler :: "node_ref \<Rightarrow> event \<times> page \<Rightarrow> (event \<times> page) option" where
  "handler link ep =
     (let (e, p) = preventDefault ep
      in case node_at (document p) link of
           None \<Rightarrow> None
         | Some n \<Rightarrow> Some (e, alert (''You clicked on '' @ textContent n) p))"

text \<open>
  The callback of \<^verbatim>\<open>navLinks.forEach\<close>, lines 3 to 8: it evaluates the function expression
  of the click listener, which closes over \<open>link\<close>, and registers the new function on
  \<open>link\<close> for \<^verbatim>\<open>"click"\<close>.
\<close>

definition bind_link :: "node_ref \<Rightarrow> page \<Rightarrow> page" where
  "bind_link link p =
     (let (f, p') = new_function p in addEventListener link ''click'' (f, link) p')"

text \<open>
  Lines 1 to 8, the body that runs once when the page is set up:
  \<^verbatim>\<open>const navLinks = document.querySelectorAll("nav a"); navLinks.forEach(...)\<close>.
  The node list is static and \<^verbatim>\<open>forEach\<close> visits it in order.
\<close>

definition navLinks :: "page \<Rightarrow> node_ref list" where
  "navLinks p = querySelectorAll (document p) [''nav'', ''a'']"

definition bind_nav_links :: "page \<Rightarrow> page" where
  "bind_nav_links p = fold bind_link (navLinks p) p"

section \<open>Clicks and later changes of the document\<close>

fun invoke :: "listener list \<Rightarrow> event \<times> page \<Rightarrow> (event \<times> page) option" where
  "invoke [] ep = Some ep"
| "invoke (l # ls) ep =
     (case handler (captured l) ep of None \<Rightarrow> None | Some ep' \<Rightarrow> invoke ls ep')"

text \<open>
  The listeners are registered without the capture option, so they run at the target and
  while the event bubbles: the event visits the target first, then its parent, and so on
  up to the root. The ancestors of a position are its proper prefixes.
\<close>

definition event_path :: "node_ref \<Rightarrow> node_ref list" where
  "event_path r = rev (prefixes r)"

fun propagate :: "node_ref list \<Rightarrow> event \<times> page \<Rightarrow> (event \<times> page) option" where
  "propagate [] ep = Some ep"
| "propagate (el # els) ep =
     (case invoke (listeners_on (snd ep) el (etype (fst ep))) ep of
        None \<Rightarrow> None
      | Some ep' \<Rightarrow> propagate els ep')"

text \<open>
  The default action of a click: when the target is an \<^verbatim>\<open>a\<close> element or lies inside one,
  and no listener has canceled the event, the browser follows the link and the document is
  left. (Every anchor is taken to have a destination, the worst case for a claim that no
  navigation happens.)
\<close>

definition has_tag :: "string \<Rightarrow> node option \<Rightarrow> bool" where
  "has_tag t n = (case n of Some (Element t' cs) \<Rightarrow> t' = t | _ \<Rightarrow> False)"

definition inside_anchor :: "node \<Rightarrow> node_ref \<Rightarrow> bool" where
  "inside_anchor doc r = (\<exists>q \<in> set (event_path r). has_tag ''a'' (node_at doc q))"

text \<open>
  A click of the user on the node at \<open>r\<close>: a cancelable \<^verbatim>\<open>click\<close> event is dispatched at
  it, then the default action is taken unless the event was canceled. Only a node of the
  document can be clicked.
\<close>

definition click :: "node_ref \<Rightarrow> page \<Rightarrow> page option" where
  "click r p =
     (case node_at (document p) r of
        None \<Rightarrow> None
      | Some n \<Rightarrow>
          (case propagate (event_path r)
                  (\<lparr>etype = ''click'', target = r, cancelable = True, canceled = False\<rparr>, p) of
             None \<Rightarrow> None
           | Some (e, p') \<Rightarrow>
               Some (if \<not> canceled e \<and> inside_anchor (document p') r
                     then p'\<lparr>navigated := True\<rparr> else p')))"

text \<open>
  \<^verbatim>\<open>parent.appendChild(new)\<close> for a node \<open>new\<close> that was not in the document: it becomes
  the last child of the element at \<open>r\<close>. A text node takes no children.
\<close>

fun append_child :: "node \<Rightarrow> node_ref \<Rightarrow> node \<Rightarrow> node option" where
  "append_child (Text s) r new = None"
| "append_child (Element t cs) [] new = Some (Element t (cs @ [new]))"
| "append_child (Element t cs) (i # r) new =
     (if i < length cs
      then (case append_child (cs ! i) r new of
              None \<Rightarrow> None
            | Some c \<Rightarrow> Some (Element t (cs[i := c])))
      else None)"

text \<open>What happens to the page after the script has run: clicks, and nodes added by others.\<close>

datatype action = Click node_ref | AppendChild node_ref node

fun step :: "action \<Rightarrow> page \<Rightarrow> page option" where
  "step (Click r) p = click r p"
| "step (AppendChild r new) p =
     (case append_child (document p) r new of
        None \<Rightarrow> None
      | Some d \<Rightarrow> Some (p\<lparr>document := d\<rparr>))"

fun run_actions :: "action list \<Rightarrow> page \<Rightarrow> page option" where
  "run_actions [] p = Some p"
| "run_actions (a # as) p = (case step a p of None \<Rightarrow> None | Some p' \<Rightarrow> run_actions as p')"

section \<open>The functions of the style guide\<close>

subsection \<open>\<^verbatim>\<open>once\<close>\<close>

text \<open>
  \<^verbatim>\<open>function once (fn) { var ran = false;
    return function run () { if (ran) { return }; ran = true; fn.apply(this, arguments); }; }\<close>

  \<open>fn\<close> is any function: called with a receiver and an argument list it changes the
  world \<open>'w\<close> it lives in and either returns a value (\<open>Inr\<close>) or throws (\<open>Inl\<close>). The
  variable \<open>ran\<close> is private to the closure, so \<open>fn\<close> cannot reach it except through
  \<open>run\<close> itself, which leaves it alone once it is set. The state of a wrapper is
  the pair of \<open>ran\<close> and the world. \<open>run\<close> returns \<^verbatim>\<open>undefined\<close> (\<open>Inr ()\<close>) unless
  \<open>fn\<close> throws, and then the exception leaves \<open>run\<close> too.
\<close>

type_synonym ('t, 'a, 'w, 'x, 'v) js_function = "'t \<Rightarrow> 'a \<Rightarrow> 'w \<Rightarrow> ('x + 'v) \<times> 'w"

definition run :: "('t, 'a, 'w, 'x, 'v) js_function \<Rightarrow> 't \<Rightarrow> 'a \<Rightarrow> bool \<times> 'w \<Rightarrow> ('x + unit) \<times> (bool \<times> 'w)" where
  "run fn this arguments s =
     (let (ran, w) = s
      in if ran then (Inr (), (ran, w))
         else (let ran = True;
                   (r, w') = fn this arguments w
               in (case r of Inl x \<Rightarrow> Inl x | Inr v \<Rightarrow> Inr (), (ran, w'))))"

text \<open>\<^verbatim>\<open>once(fn)\<close>: the initial value of \<open>ran\<close>, and the function returned.\<close>

definition once :: "('t, 'a, 'w, 'x, 'v) js_function \<Rightarrow>
    bool \<times> ('t \<Rightarrow> 'a \<Rightarrow> bool \<times> 'w \<Rightarrow> ('x + unit) \<times> (bool \<times> 'w))" where
  "once fn = (False, run fn)"

text \<open>
  A sequence of calls of one wrapper, each with its receiver and arguments; a caller that
  catches an exception goes on with the next call. The results are collected in order.
\<close>

fun call_each :: "('t \<Rightarrow> 'a \<Rightarrow> 's \<Rightarrow> 'r \<times> 's) \<Rightarrow> ('t \<times> 'a) list \<Rightarrow> 's \<Rightarrow> 'r list \<times> 's" where
  "call_each f [] s = ([], s)"
| "call_each f (c # cs) s =
     (let (r, s') = f (fst c) (snd c) s;
          (rs, s'') = call_each f cs s'
      in (r # rs, s''))"

text \<open>
  To count the invocations of a function, it is paired with a counter that lives in the
  world and goes up by one each time the function is entered.
\<close>

definition counting :: "('t, 'a, 'w, 'x, 'v) js_function \<Rightarrow> ('t, 'a, nat \<times> 'w, 'x, 'v) js_function" where
  "counting fn this arguments cw =
     (let (r, w') = fn this arguments (snd cw) in (r, (Suc (fst cw), w')))"

subsection \<open>\<^verbatim>\<open>format\<close>\<close>

text \<open>
  \<^verbatim>\<open>function format () {
    var args = [].slice.call(arguments);
    var initial = args.shift();
    function replacer (text, replacement) { return text.replace('%s', replacement); }
    return args.reduce(replacer, initial); }\<close>

  The arguments are strings. \<^verbatim>\<open>String.prototype.replace\<close> with a string pattern finds the
  first occurrence of the pattern and puts in its place the replacement after expanding
  the replacement patterns in it (GetSubstitution of ECMAScript): \<^verbatim>\<open>$$\<close> is a dollar sign,
  \<^verbatim>\<open>$&\<close> the matched text, \<^verbatim>\<open>$`\<close> the text before the match and \<^verbatim>\<open>$'\<close> the text after it.
  A string pattern has no capture groups, so every other dollar sign stands for itself.
\<close>

datatype js_value = Undefined | Str string

fun indexOf :: "string \<Rightarrow> string \<Rightarrow> nat option" where
  "indexOf [] pat = (if pat = [] then Some 0 else None)"
| "indexOf (c # s) pat =
     (if prefix pat (c # s) then Some 0 else map_option Suc (indexOf s pat))"

fun get_substitution :: "string \<Rightarrow> string \<Rightarrow> nat \<Rightarrow> string \<Rightarrow> string" where
  "get_substitution matched str pos [] = []"
| "get_substitution matched str pos [c] = [c]"
| "get_substitution matched str pos (c # d # t) =
     (if c = CHR ''$'' \<and> d = CHR ''$'' then CHR ''$'' # get_substitution matched str pos t
      else if c = CHR ''$'' \<and> d = CHR 0x60 then take pos str @ get_substitution matched str pos t
      else if c = CHR ''$'' \<and> d = CHR ''&'' then matched @ get_substitution matched str pos t
      else if c = CHR ''$'' \<and> d = CHR 0x27
        then drop (min (pos + length matched) (length str)) str @ get_substitution matched str pos t
      else c # get_substitution matched str pos (d # t))"

definition replace :: "string \<Rightarrow> string \<Rightarrow> string \<Rightarrow> string" where
  "replace str searchString replaceValue =
     (case indexOf str searchString of
        None \<Rightarrow> str
      | Some pos \<Rightarrow>
          take pos str @ get_substitution searchString str pos replaceValue
            @ drop (pos + length searchString) str)"

definition replacer :: "string \<Rightarrow> string \<Rightarrow> string" where
  "replacer text replacement = replace text ''%s'' replacement"

text \<open>
  \<^verbatim>\<open>shift\<close> of an empty array gives \<^verbatim>\<open>undefined\<close>, and \<^verbatim>\<open>reduce\<close> of an empty array gives
  its initial value; \<^verbatim>\<open>reduce\<close> runs from left to right.
\<close>

definition format :: "string list \<Rightarrow> js_value" where
  "format arguments =
     (case arguments of
        [] \<Rightarrow> Undefined
      | initial # args \<Rightarrow> Str (foldl replacer initial args))"

text \<open>
  The reading of \<^verbatim>\<open>format\<close> as positional substitution, to compare the function with:
  the occurrences of \<^verbatim>\<open>%s\<close> in the initial string are taken from left to right, each
  gives way to the next argument as it is, and the arguments left over when no \<^verbatim>\<open>%s\<close>
  remains are dropped.
\<close>

fun format_spec :: "string \<Rightarrow> string list \<Rightarrow> string" where
  "format_spec s [] = s"
| "format_spec s (a # as) =
     (case indexOf s ''%s'' of
        None \<Rightarrow> s
      | Some i \<Rightarrow> take i s @ a @ format_spec (drop (i + 2) s) as)"

subsection \<open>\<^verbatim>\<open>util\<close>\<close>

text \<open>
  \<^verbatim>\<open>function util (options) { var foo;
    function add () { return foo++; }
    function reset () { foo = options.start || 0; }
    reset();
    return { uuid: add }; }\<close>

  A Number is an IEEE 754 double. The numbers here are the integers among them, written
  as \<open>int\<close>: every integer of magnitude up to \<open>2 ^ 53\<close> is a double, and beyond that only
  those that fit 53 significant bits. The sum of two such numbers is the exact sum rounded
  to the nearest double, to the one with an even significand in a tie. (Magnitudes from
  \<open>2 ^ 1024\<close> on are infinite as doubles and are not covered.)
\<close>

definition round_double :: "int \<Rightarrow> int" where
  "round_double x =
     (let a = \<bar>x\<bar>; e = bitlen a - 53
      in if e \<le> 0 then x
         else (let u = 2 ^ nat e; q = a div u; r = a mod u;
                   q' = (if u < 2 * r \<or> (2 * r = u \<and> odd q) then q + 1 else q)
               in sgn x * (q' * u)))"

text \<open>
  \<^verbatim>\<open>options.start\<close> is absent (\<open>None\<close>, read as \<^verbatim>\<open>undefined\<close>) or a number. \<^verbatim>\<open>undefined\<close>
  and zero are falsy, every other number here is truthy.
\<close>

record options =
  start :: "int option"

definition truthy :: "int option \<Rightarrow> bool" where
  "truthy v = (case v of None \<Rightarrow> False | Some n \<Rightarrow> n \<noteq> 0)"

definition reset :: "options \<Rightarrow> int" where
  "reset options = (case start options of None \<Rightarrow> 0 | Some n \<Rightarrow> if truthy (Some n) then n else 0)"

text \<open>\<^verbatim>\<open>return foo++\<close>: the value returned is the old one, the new one is the old plus one.\<close>

definition add :: "int \<Rightarrow> int \<times> int" where
  "add foo = (foo, round_double (foo + 1))"

text \<open>
  \<^verbatim>\<open>util(options)\<close> runs \<open>reset\<close> and returns the object whose \<^verbatim>\<open>uuid\<close> is \<open>add\<close>; the
  state of that object is the variable \<open>foo\<close>.
\<close>

definition util :: "options \<Rightarrow> int" where
  "util options = reset options"

definition uuid :: "int \<Rightarrow> int \<times> int" where
  "uuid foo = add foo"

text \<open>\<open>k\<close> calls of \<^verbatim>\<open>uuid\<close> in a row: the values returned, and the state left.\<close>

fun uuids :: "nat \<Rightarrow> int \<Rightarrow> int list \<times> int" where
  "uuids 0 foo = ([], foo)"
| "uuids (Suc k) foo =
     (let (v, foo') = uuid foo; (vs, foo'') = uuids k foo' in (v # vs, foo''))"

section \<open>Notions used in the statements\<close>

text \<open>
  What the selector \<^verbatim>\<open>nav a\<close> means: the node at \<open>r\<close> is an \<^verbatim>\<open>a\<close> element and one of
  its ancestors is a \<^verbatim>\<open>nav\<close> element.
\<close>

definition anchor_in_nav :: "node \<Rightarrow> node_ref \<Rightarrow> bool" where
  "anchor_in_nav doc r =
     (has_tag ''a'' (node_at doc r) \<and>
      (\<exists>q \<in> set (prefixes r). q \<noteq> r \<and> has_tag ''nav'' (node_at doc q)))"

text \<open>The tag names of all elements of a tree.\<close>

fun tag_names :: "node \<Rightarrow> string list" where
  "tag_names (Text s) = []"
| "tag_names (Element t cs) = t # concat (map tag_names cs)"

text \<open>
  The listeners that binding the references \<open>rs\<close> in turn creates, when the first function
  object gets the identity \<open>k\<close>.
\<close>

fun closures :: "nat \<Rightarrow> node_ref list \<Rightarrow> listener list" where
  "closures k [] = []"
| "closures k (r # rs) =
     \<lparr>on_node = r, event_type = ''click'', fn_id = k, captured = r\<rparr> # closures (Suc k) rs"

text \<open>What one run of the click listener for \<open>link\<close> adds to the trace of a page.\<close>

definition shown :: "node \<Rightarrow> node_ref \<Rightarrow> effect list" where
  "shown doc link =
     (case node_at doc link of
        None \<Rightarrow> []
      | Some n \<Rightarrow> [PreventDefault, Alert (''You clicked on '' @ textContent n)])"

text \<open>Every listener of the page refers to a node of its document.\<close>

definition listeners_valid :: "page \<Rightarrow> bool" where
  "listeners_valid p = (\<forall>l \<in> set (listeners p). node_at (document p) (captured l) \<noteq> None)"


text \<open>The listeners that an event meets along a path, in the order it meets them.\<close>

definition path_listeners :: "page \<Rightarrow> string \<Rightarrow> node_ref list \<Rightarrow> listener list" where
  "path_listeners p ty qs = concat (map (\<lambda>q. listeners_on p q ty) qs)"

text \<open>A page to try the statements on: two links in the navigation, one outside it.\<close>

definition home_page :: node where
  "home_page = Element ''body''
     [Element ''nav'' [Element ''a'' [Text ''Home''], Element ''a'' [Text ''About'']],
      Element ''a'' [Text ''Elsewhere'']]"

text \<open>A page without a navigation container, and one whose link text is split over two nodes.\<close>

definition plain_page :: node where
  "plain_page = Element ''body'' [Element ''a'' [Text ''Home''], Element ''p'' [Text ''no navigation here'']]"

definition split_page :: node where
  "split_page = Element ''nav'' [Element ''a'' [Text ''Ho'', Element ''b'' [Text ''me'']]]"

text \<open>
  A function to try \<^verbatim>\<open>once\<close> on: it records its receiver and argument in the world,
  returns the receiver, and throws when the argument is \<^verbatim>\<open>boom\<close>.
\<close>

definition logger :: "(nat, string, (nat \<times> string) list, string, nat) js_function" where
  "logger this arguments w = (if arguments = ''boom'' then Inl ''thrown'' else Inr this, w @ [(this, arguments)])"

section \<open>Selector matching\<close>

lemma matching_children_set:
  "r \<in> set (matching_children sel i cs) \<longleftrightarrow>
     (\<exists>j r'. j < length cs \<and> r = (i + j) # r' \<and> r' \<in> set (matching sel (cs ! j)))"
proof (induction cs arbitrary: i)
  case Nil
  then show ?case by simp
next
  case (Cons c cs)
  show ?case
  proof
    assume "r \<in> set (matching_children sel i (c # cs))"
    then consider "r \<in> (#) i ` set (matching sel c)" | "r \<in> set (matching_children sel (Suc i) cs)"
      by auto
    then show "\<exists>j r'. j < length (c # cs) \<and> r = (i + j) # r' \<and> r' \<in> set (matching sel ((c # cs) ! j))"
    proof cases
      case 1
      then show ?thesis by (intro exI [of _ 0]) auto
    next
      case 2
      then obtain j r' where "j < length cs" "r = (Suc i + j) # r'" "r' \<in> set (matching sel (cs ! j))"
        using Cons.IH by blast
      then show ?thesis by (intro exI [of _ "Suc j"]) auto
    qed
  next
    assume "\<exists>j r'. j < length (c # cs) \<and> r = (i + j) # r' \<and> r' \<in> set (matching sel ((c # cs) ! j))"
    then obtain j r' where j: "j < length (c # cs)" "r = (i + j) # r'" "r' \<in> set (matching sel ((c # cs) ! j))"
      by blast
    show "r \<in> set (matching_children sel i (c # cs))"
    proof (cases j)
      case 0
      with j show ?thesis by auto
    next
      case (Suc j')
      with j have "j' < length cs" "r = (Suc i + j') # r'" "r' \<in> set (matching sel (cs ! j'))"
        by auto
      then have "r \<in> set (matching_children sel (Suc i) cs)"
        using Cons.IH by blast
      then show ?thesis by simp
    qed
  qed
qed

lemma matching_children_distinct:
  "(\<And>c. c \<in> set cs \<Longrightarrow> distinct (matching sel c)) \<Longrightarrow> distinct (matching_children sel i cs)"
proof (induction cs arbitrary: i)
  case Nil
  then show ?case by simp
next
  case (Cons c cs)
  have "distinct (map ((#) i) (matching sel c))"
    using Cons.prems by (simp add: distinct_map)
  moreover have "distinct (matching_children sel (Suc i) cs)"
    using Cons by simp
  moreover have "set (map ((#) i) (matching sel c)) \<inter> set (matching_children sel (Suc i) cs) = {}"
    by (auto simp: matching_children_set)
  ultimately show ?case by simp
qed

lemma matching_distinct: "distinct (matching sel n)"
proof (induction n arbitrary: sel)
  case (Text s)
  then show ?case by simp
next
  case (Element t cs)
  have ch: "distinct (matching_children sel' 0 cs)" for sel'
    by (rule matching_children_distinct) (rule Element.IH)
  show ?case
  proof (cases sel)
    case Nil
    then show ?thesis by simp
  next
    case (Cons s ss)
    then show ?thesis
      using ch by (cases ss) (auto simp: matching_children_set)
  qed
qed

lemma matching_children_Nil:
  "(\<And>c. c \<in> set cs \<Longrightarrow> matching sel c = []) \<Longrightarrow> matching_children sel i cs = []"
  by (induction cs arbitrary: i) auto

lemma matching_no_tag:
  "s0 \<in> set sel \<Longrightarrow> s0 \<notin> set (tag_names n) \<Longrightarrow> matching sel n = []"
proof (induction n arbitrary: sel)
  case (Text s)
  then show ?case by simp
next
  case (Element t cs)
  have ch: "matching_children sel' i cs = []" if "s0 \<in> set sel'" for sel' i
    using Element.IH [of _ sel'] that Element.prems(2)
    by (intro matching_children_Nil) auto
  show ?case
  proof (cases sel)
    case Nil
    with Element.prems show ?thesis by simp
  next
    case (Cons s ss)
    show ?thesis
    proof (cases ss)
      case Nil
      with Cons Element.prems show ?thesis using ch [of "[s]"] by auto
    next
      case (Cons s' ss')
      with \<open>sel = s # ss\<close> Element.prems show ?thesis
        using ch [of "s' # ss'"] ch [of "s # s' # ss'"] by auto
    qed
  qed
qed

lemma has_tag_root [simp]: "has_tag s (Some (Element t cs)) = (t = s)" "has_tag s (Some (Text x)) = False" "has_tag s None = False"
  by (simp_all add: has_tag_def)

lemma matching_single:
  "r \<in> set (matching [s] n) \<longleftrightarrow> has_tag s (node_at n r)"
proof (induction n arbitrary: r)
  case (Text x)
  then show ?case by (cases r) simp_all
next
  case (Element t cs)
  show ?case
  proof (cases r)
    case Nil
    then show ?thesis by (auto simp: matching_children_set)
  next
    case (Cons j r')
    then show ?thesis
      using Element.IH [of "cs ! j" r'] by (auto simp: matching_children_set)
  qed
qed

lemma matching_pair:
  "r \<in> set (matching [s1, s2] n) \<longleftrightarrow>
     has_tag s2 (node_at n r) \<and> (\<exists>q. strict_prefix q r \<and> has_tag s1 (node_at n q))"
proof (induction n arbitrary: r)
  case (Text x)
  then show ?case by (cases r) (auto simp: strict_prefix_def)
next
  case (Element t cs)
  show ?case
  proof (cases r)
    case Nil
    then show ?thesis by (auto simp: matching_children_set)
  next
    case (Cons j r')
    show ?thesis
    proof (cases "t = s1")
      case True
      have "strict_prefix [] (j # r')" by (simp add: strict_prefix_def)
      then have "\<exists>q. strict_prefix q (j # r') \<and> has_tag s1 (node_at (Element t cs) q)"
        using True by (intro exI [of _ "[]"]) simp
      then show ?thesis
        using True Cons by (auto simp: matching_children_set matching_single)
    next
      case False
      have "(\<exists>q. strict_prefix q (j # r') \<and> has_tag s1 (node_at (Element t cs) q)) \<longleftrightarrow>
            j < length cs \<and> (\<exists>q'. strict_prefix q' r' \<and> has_tag s1 (node_at (cs ! j) q'))"
      proof
        assume "\<exists>q. strict_prefix q (j # r') \<and> has_tag s1 (node_at (Element t cs) q)"
        then obtain q where q: "strict_prefix q (j # r')" "has_tag s1 (node_at (Element t cs) q)"
          by blast
        with False obtain q' where "q = j # q'"
          by (cases q) (auto simp: strict_prefix_def)
        with q show "j < length cs \<and> (\<exists>q'. strict_prefix q' r' \<and> has_tag s1 (node_at (cs ! j) q'))"
          by (auto simp: strict_prefix_def split: if_splits)
      next
        assume "j < length cs \<and> (\<exists>q'. strict_prefix q' r' \<and> has_tag s1 (node_at (cs ! j) q'))"
        then obtain q' where "j < length cs" "strict_prefix q' r'" "has_tag s1 (node_at (cs ! j) q')"
          by blast
        then show "\<exists>q. strict_prefix q (j # r') \<and> has_tag s1 (node_at (Element t cs) q)"
          by (intro exI [of _ "j # q'"]) (auto simp: strict_prefix_def)
      qed
      then show ?thesis
        using False Cons Element.IH [of "cs ! j" r'] by (auto simp: matching_children_set)
    qed
  qed
qed

lemma nav_a_iff:
  "r \<in> set (querySelectorAll doc [''nav'', ''a'']) \<longleftrightarrow> anchor_in_nav doc r"
  by (auto simp: querySelectorAll_def matching_pair anchor_in_nav_def strict_prefix_def)

section \<open>Binding, dispatch and later changes\<close>

lemma bind_link_fresh:
  assumes "\<forall>l \<in> set (listeners p). fn_id l < next_fn p"
  shows "bind_link r p =
    p\<lparr>listeners := listeners p @ closures (next_fn p) [r], next_fn := Suc (next_fn p)\<rparr>"
  using assms by (auto simp: bind_link_def new_function_def addEventListener_def)

lemma fold_bind_link:
  assumes "\<forall>l \<in> set (listeners p). fn_id l < next_fn p"
  shows "fold bind_link rs p =
    p\<lparr>listeners := listeners p @ closures (next_fn p) rs, next_fn := next_fn p + length rs\<rparr>"
  using assms
proof (induction rs arbitrary: p)
  case Nil
  then show ?case by simp
next
  case (Cons r rs)
  let ?p = "bind_link r p"
  have step: "?p = p\<lparr>listeners := listeners p @ closures (next_fn p) [r], next_fn := Suc (next_fn p)\<rparr>"
    using Cons.prems by (rule bind_link_fresh)
  have "\<forall>l \<in> set (listeners ?p). fn_id l < next_fn ?p"
    using Cons.prems by (auto simp: step less_Suc_eq)
  from Cons.IH [OF this] show ?case
    by (simp add: step)
qed

lemma closures_length: "length (closures k rs) = length rs"
  by (induction rs arbitrary: k) auto

lemma closures_mem:
  "l \<in> set (closures k rs) \<Longrightarrow> captured l = on_node l \<and> event_type l = ''click'' \<and> on_node l \<in> set rs"
  by (induction rs arbitrary: k) auto

lemma closures_filter_notin:
  "q \<notin> set rs \<Longrightarrow> filter (\<lambda>l. on_node l = q \<and> event_type l = ''click'') (closures k rs) = []"
  by (induction rs arbitrary: k) auto

lemma closures_filter_in:
  "distinct rs \<Longrightarrow> q \<in> set rs \<Longrightarrow>
   \<exists>j. filter (\<lambda>l. on_node l = q \<and> event_type l = ''click'') (closures k rs) =
     [\<lparr>on_node = q, event_type = ''click'', fn_id = j, captured = q\<rparr>]"
  by (induction rs arbitrary: k) (auto simp: closures_filter_notin)

lemma bind_nav_links_loaded:
  "bind_nav_links (loaded doc) =
     (loaded doc)\<lparr>listeners := closures 0 (querySelectorAll doc [''nav'', ''a'']),
                  next_fn := length (querySelectorAll doc [''nav'', ''a''])\<rparr>"
  unfolding bind_nav_links_def
  by (subst fold_bind_link) (simp_all add: loaded_def navLinks_def)

lemma handler_Some:
  assumes "node_at (document p) r = Some n"
  shows "handler r (e, p) =
    Some (e\<lparr>canceled := canceled e \<or> cancelable e\<rparr>,
          p\<lparr>trace := trace p @ [PreventDefault, Alert (''You clicked on '' @ textContent n)]\<rparr>)"
  using assms by (simp add: handler_def preventDefault_def alert_def)

lemma handler_shown:
  assumes "node_at (document p) r \<noteq> None"
  shows "handler r (e, p) =
    Some (e\<lparr>canceled := canceled e \<or> cancelable e\<rparr>, p\<lparr>trace := trace p @ shown (document p) r\<rparr>)"
  using assms by (auto simp: handler_Some shown_def)

lemma invoke_eq:
  assumes "\<forall>l \<in> set ls. node_at (document p) (captured l) \<noteq> None"
  shows "invoke ls (e, p) =
    Some (e\<lparr>canceled := canceled e \<or> (ls \<noteq> [] \<and> cancelable e)\<rparr>,
          p\<lparr>trace := trace p @ concat (map (\<lambda>l. shown (document p) (captured l)) ls)\<rparr>)"
  using assms
proof (induction ls arbitrary: e p)
  case Nil
  then show ?case by simp
next
  case (Cons l ls)
  let ?e = "e\<lparr>canceled := canceled e \<or> cancelable e\<rparr>"
  let ?p = "p\<lparr>trace := trace p @ shown (document p) (captured l)\<rparr>"
  have h: "handler (captured l) (e, p) = Some (?e, ?p)"
    using Cons.prems by (simp add: handler_shown)
  have "\<forall>l \<in> set ls. node_at (document ?p) (captured l) \<noteq> None"
    using Cons.prems by simp
  from Cons.IH [OF this, of ?e] show ?case
    by (cases "cancelable e"; cases "ls = []"; simp add: h)
qed

lemma listeners_on_subset: "set (listeners_on p q ty) \<subseteq> set (listeners p)"
  by (auto simp: listeners_on_def)

lemma propagate_eq:
  assumes "listeners_valid p"
  shows "propagate qs (e, p) =
    Some (e\<lparr>canceled := canceled e \<or> (path_listeners p (etype e) qs \<noteq> [] \<and> cancelable e)\<rparr>,
          p\<lparr>trace := trace p @ concat (map (\<lambda>l. shown (document p) (captured l))
                                          (path_listeners p (etype e) qs))\<rparr>)"
  using assms
proof (induction qs arbitrary: e p)
  case Nil
  then show ?case by (simp add: path_listeners_def)
next
  case (Cons q qs)
  let ?ls = "listeners_on p q (etype e)"
  let ?e = "e\<lparr>canceled := canceled e \<or> (?ls \<noteq> [] \<and> cancelable e)\<rparr>"
  let ?p = "p\<lparr>trace := trace p @ concat (map (\<lambda>l. shown (document p) (captured l)) ?ls)\<rparr>"
  have "\<forall>l \<in> set ?ls. node_at (document p) (captured l) \<noteq> None"
    using Cons.prems listeners_on_subset [of p q "etype e"] by (auto simp: listeners_valid_def)
  then have i: "invoke ?ls (e, p) = Some (?e, ?p)"
    by (rule invoke_eq)
  have v: "listeners_valid ?p"
    using Cons.prems by (simp add: listeners_valid_def)
  have same: "path_listeners ?p (etype ?e) qs = path_listeners p (etype e) qs"
    by (simp add: path_listeners_def listeners_on_def)
  have split: "path_listeners p (etype e) (q # qs) = ?ls @ path_listeners p (etype e) qs"
    by (simp add: path_listeners_def)
  have ih: "propagate qs (?e, ?p) =
    Some (?e\<lparr>canceled := canceled ?e \<or> (path_listeners p (etype e) qs \<noteq> [] \<and> cancelable ?e)\<rparr>,
          ?p\<lparr>trace := trace ?p @ concat (map (\<lambda>l. shown (document ?p) (captured l))
                                          (path_listeners p (etype e) qs))\<rparr>)"
    using Cons.IH [OF v, of ?e] by (simp only: same)
  show ?case
    unfolding propagate.simps snd_conv fst_conv i option.case ih split
    by (cases "cancelable e"; cases "?ls = []"; cases "path_listeners p (etype e) qs = []"; simp)
qed

lemma click_eq:
  assumes "listeners_valid p" and "node_at (document p) r \<noteq> None"
  shows "click r p =
    Some (p\<lparr>trace := trace p @ concat (map (\<lambda>l. shown (document p) (captured l))
                                         (path_listeners p ''click'' (event_path r))),
            navigated := (if path_listeners p ''click'' (event_path r) = [] \<and> inside_anchor (document p) r
                          then True else navigated p)\<rparr>)"
  using assms(2)
  by (cases "path_listeners p ''click'' (event_path r) = []")
     (auto simp: click_def propagate_eq [OF assms(1)])

lemma event_path_Cons: "event_path r = r # rev (butlast (prefixes r))"
proof -
  have "butlast (prefixes r) @ [last (prefixes r)] = prefixes r"
    by (rule append_butlast_last_id) simp
  then have "prefixes r = butlast (prefixes r) @ [r]"
    by simp
  then have "rev (prefixes r) = rev (butlast (prefixes r) @ [r])"
    by simp
  then show ?thesis
    by (simp add: event_path_def)
qed

lemma butlast_prefixes: "q \<in> set (butlast (prefixes r)) \<longleftrightarrow> strict_prefix q r"
proof -
  have eq: "prefixes r = butlast (prefixes r) @ [r]"
    using append_butlast_last_id [of "prefixes r"] by simp
  have "distinct (butlast (prefixes r) @ [r])"
    using distinct_prefixes [of r] eq by simp
  then have notin: "r \<notin> set (butlast (prefixes r))"
    by simp
  have "set (prefixes r) = insert r (set (butlast (prefixes r)))"
    using eq by (metis Un_insert_right append_Nil2 list.simps(15) set_append)
  then have "q \<in> set (butlast (prefixes r)) \<longleftrightarrow> prefix q r \<and> q \<noteq> r"
    using notin by (metis in_set_prefixes insert_iff)
  then show ?thesis
    by (simp add: strict_prefix_def)
qed


lemma append_child_keeps:
  assumes "append_child d parent new = Some d'" and "has_tag t (node_at d r)"
  shows "has_tag t (node_at d' r)"
  using assms
proof (induction d parent new arbitrary: d' r rule: append_child.induct)
  case (1 s r new)
  then show ?case by simp
next
  case (2 t' cs new)
  then show ?case by (cases r) (auto simp: nth_append split: if_splits)
next
  case (3 t' cs i q new)
  from "3.prems"(1) obtain c where i: "i < length cs" and c: "append_child (cs ! i) q new = Some c"
    and d': "d' = Element t' (cs[i := c])"
    by (auto split: if_splits option.splits)
  show ?case
  proof (cases r)
    case Nil
    with "3.prems"(2) d' show ?thesis by simp
  next
    case (Cons j r')
    show ?thesis
    proof (cases "j = i")
      case True
      with Cons "3.prems"(2) i have "has_tag t (node_at (cs ! i) r')" by simp
      from "3.IH" [OF i c this] show ?thesis using Cons True i d' by simp
    next
      case False
      with Cons "3.prems"(2) d' show ?thesis by (auto split: if_splits)
    qed
  qed
qed

lemma append_child_valid:
  assumes "append_child d parent new = Some d'" and "node_at d r \<noteq> None"
  shows "node_at d' r \<noteq> None"
  using assms
proof (induction d parent new arbitrary: d' r rule: append_child.induct)
  case (1 s r new)
  then show ?case by simp
next
  case (2 t' cs new)
  then show ?case by (cases r) (auto simp: nth_append split: if_splits)
next
  case (3 t' cs i q new)
  from "3.prems"(1) obtain c where i: "i < length cs" and c: "append_child (cs ! i) q new = Some c"
    and d': "d' = Element t' (cs[i := c])"
    by (auto split: if_splits option.splits)
  show ?case
  proof (cases r)
    case Nil
    with d' show ?thesis by simp
  next
    case (Cons j r')
    show ?thesis
    proof (cases "j = i")
      case True
      with Cons "3.prems"(2) i have "node_at (cs ! i) r' \<noteq> None" by simp
      from "3.IH" [OF i c this] show ?thesis using Cons True i d' by simp
    next
      case False
      with Cons "3.prems"(2) d' show ?thesis by (auto split: if_splits)
    qed
  qed
qed

lemma step_keeps:
  assumes "listeners_valid p" and "step a p = Some p'"
  shows "listeners p' = listeners p \<and> listeners_valid p' \<and> next_fn p' = next_fn p"
proof (cases a)
  case (Click r)
  with assms(2) have "node_at (document p) r \<noteq> None"
    by (auto simp: click_def split: option.splits)
  from click_eq [OF assms(1) this] assms Click show ?thesis
    by (auto simp: listeners_valid_def)
next
  case (AppendChild r new)
  with assms(2) obtain d where d: "append_child (document p) r new = Some d" and p': "p' = p\<lparr>document := d\<rparr>"
    by (auto split: option.splits)
  show ?thesis
    using assms(1) append_child_valid [OF d] by (auto simp: p' listeners_valid_def)
qed

lemma run_actions_keeps:
  assumes "listeners_valid p" and "run_actions as p = Some p'"
  shows "listeners p' = listeners p \<and> listeners_valid p' \<and> next_fn p' = next_fn p"
  using assms
proof (induction as arbitrary: p)
  case Nil
  then show ?case by simp
next
  case (Cons a as)
  from Cons.prems(2) obtain p1 where s: "step a p = Some p1" and r: "run_actions as p1 = Some p'"
    by (auto split: option.splits)
  from step_keeps [OF Cons.prems(1) s] Cons.IH [of p1] r show ?case
    by simp
qed

lemma bound_fields:
  "document (bind_nav_links (loaded doc)) = doc"
  "listeners (bind_nav_links (loaded doc)) = closures 0 (querySelectorAll doc [''nav'', ''a''])"
  "next_fn (bind_nav_links (loaded doc)) = length (querySelectorAll doc [''nav'', ''a''])"
  "trace (bind_nav_links (loaded doc)) = []"
  "navigated (bind_nav_links (loaded doc)) = False"
  unfolding bind_nav_links_loaded by (simp_all add: loaded_def)

lemma bound_valid: "listeners_valid (bind_nav_links (loaded doc))"
proof -
  have "node_at doc (captured l) \<noteq> None"
    if "l \<in> set (closures 0 (querySelectorAll doc [''nav'', ''a'']))" for l
  proof -
    from closures_mem [OF that] have "on_node l \<in> set (querySelectorAll doc [''nav'', ''a''])" "captured l = on_node l"
      by simp_all
    then have "has_tag ''a'' (node_at doc (captured l))"
      by (simp add: nav_a_iff anchor_in_nav_def)
    then show ?thesis by (auto simp: has_tag_def split: option.splits)
  qed
  then show ?thesis
    by (simp add: listeners_valid_def bound_fields)
qed

lemma step_keeps_tags:
  assumes "listeners_valid p" and "step a p = Some p'" and "has_tag t (node_at (document p) r)"
  shows "has_tag t (node_at (document p') r)"
proof (cases a)
  case (Click q)
  with assms(2) have "node_at (document p) q \<noteq> None"
    by (auto simp: click_def split: option.splits)
  from click_eq [OF assms(1) this] assms Click show ?thesis
    by auto
next
  case (AppendChild q new)
  with assms(2) obtain d where d: "append_child (document p) q new = Some d" and p': "p' = p\<lparr>document := d\<rparr>"
    by (auto split: option.splits)
  show ?thesis
    using append_child_keeps [OF d assms(3)] by (simp add: p')
qed

lemma run_actions_keeps_tags:
  assumes "listeners_valid p" and "run_actions as p = Some p'" and "has_tag t (node_at (document p) r)"
  shows "has_tag t (node_at (document p') r)"
  using assms
proof (induction as arbitrary: p)
  case Nil
  then show ?case by simp
next
  case (Cons a as)
  from Cons.prems(2) obtain p1 where s: "step a p = Some p1" and r: "run_actions as p1 = Some p'"
    by (auto split: option.splits)
  from step_keeps [OF Cons.prems(1) s] have "listeners_valid p1" by simp
  from Cons.IH [OF this r step_keeps_tags [OF Cons.prems(1) s Cons.prems(3)]] show ?case .
qed

lemma navLinks_loaded: "navLinks (loaded doc) = querySelectorAll doc [''nav'', ''a'']"
  by (simp add: navLinks_def loaded_def)

lemma navLinks_distinct: "distinct (querySelectorAll doc sel)"
  by (simp add: querySelectorAll_def matching_distinct)

text \<open>The listeners of a page that was bound and then lived on.\<close>

lemma later_listeners:
  assumes "run_actions as (bind_nav_links (loaded doc)) = Some p"
  shows "listeners p = closures 0 (querySelectorAll doc [''nav'', ''a''])" and "listeners_valid p"
  using run_actions_keeps [OF bound_valid assms] by (simp_all add: bound_fields)

lemma later_listeners_on:
  assumes "run_actions as (bind_nav_links (loaded doc)) = Some p"
  shows "q \<notin> set (querySelectorAll doc [''nav'', ''a'']) \<Longrightarrow> listeners_on p q ''click'' = []"
    and "q \<in> set (querySelectorAll doc [''nav'', ''a'']) \<Longrightarrow>
      \<exists>j. listeners_on p q ''click'' = [\<lparr>on_node = q, event_type = ''click'', fn_id = j, captured = q\<rparr>]"
  using closures_filter_in [OF navLinks_distinct, of q doc "[''nav'', ''a'']" 0]
  by (simp_all add: listeners_on_def later_listeners(1) [OF assms] closures_filter_notin)







lemma click_matched:
  assumes "listeners p = closures 0 M" and "distinct M" and "listeners_valid p" and "r \<in> set M"
  shows "\<exists>p'. click r p = Some p' \<and> listeners p' = listeners p \<and> document p' = document p \<and>
           navigated p' = navigated p"
proof -
  obtain j where "filter (\<lambda>l. on_node l = r \<and> event_type l = ''click'') (closures 0 M) =
      [\<lparr>on_node = r, event_type = ''click'', fn_id = j, captured = r\<rparr>]"
    using closures_filter_in [OF assms(2,4)] by blast
  then have own: "listeners_on p r ''click'' = [\<lparr>on_node = r, event_type = ''click'', fn_id = j, captured = r\<rparr>]"
    by (simp add: listeners_on_def assms(1))
  then have "\<lparr>on_node = r, event_type = ''click'', fn_id = j, captured = r\<rparr> \<in> set (listeners p)"
    using listeners_on_subset [of p r "''click''"] by simp
  then have v: "node_at (document p) r \<noteq> None"
    using assms(3) by (auto simp: listeners_valid_def)
  have "path_listeners p ''click'' (event_path r) \<noteq> []"
    by (simp add: event_path_Cons path_listeners_def own)
  with click_eq [OF assms(3) v] show ?thesis
    by simp
qed

lemma clicks_matched:
  assumes "listeners p = closures 0 M" and "distinct M" and "listeners_valid p" and "set rs \<subseteq> set M"
  shows "\<exists>p'. run_actions (map Click rs) p = Some p' \<and> navigated p' = navigated p"
  using assms
proof (induction rs arbitrary: p)
  case Nil
  then show ?case by simp
next
  case (Cons r rs)
  from Cons.prems have "r \<in> set M" by simp
  from click_matched [OF Cons.prems(1-3) this]
  obtain p1 where c: "click r p = Some p1" and l: "listeners p1 = listeners p"
    and d: "document p1 = document p" and n: "navigated p1 = navigated p"
    by blast
  have "listeners_valid p1"
    using Cons.prems(3) by (simp add: listeners_valid_def l d)
  moreover have "listeners p1 = closures 0 M"
    using l Cons.prems(1) by simp
  moreover have "set rs \<subseteq> set M"
    using Cons.prems(4) by simp
  ultimately obtain p' where "run_actions (map Click rs) p1 = Some p'" "navigated p' = navigated p1"
    using Cons.IH [of p1] Cons.prems(2) by blast
  with c n show ?case by simp
qed

section \<open>Facts about the functions of the style guide\<close>

lemma run_after_ran: "run fn this arguments (True, w) = (Inr (), (True, w))"
  by (simp add: run_def)

lemma call_each_after_ran:
  "call_each (run fn) cs (True, w) = (replicate (length cs) (Inr ()), (True, w))"
  by (induction cs) (simp_all add: run_after_ran)

lemma run_first:
  "run fn this arguments (False, w) =
     (case fst (fn this arguments w) of Inl x \<Rightarrow> Inl x | Inr v \<Rightarrow> Inr (), (True, snd (fn this arguments w)))"
  by (simp add: run_def split: prod.splits)

lemma call_each_run_first:
  "call_each (run fn) (c # cs) (False, w) =
     ((case fst (fn (fst c) (snd c) w) of Inl x \<Rightarrow> Inl x | Inr v \<Rightarrow> Inr ()) # replicate (length cs) (Inr ()),
      (True, snd (fn (fst c) (snd c) w)))"
  by (simp add: run_first call_each_after_ran)

lemma get_substitution_plain:
  "CHR ''$'' \<notin> set t \<Longrightarrow> get_substitution matched str pos t = t"
  by (induction matched str pos t rule: get_substitution.induct) auto

lemma indexOf_occurs: "indexOf (xs @ pat @ ys) pat \<noteq> None"
proof (induction xs)
  case Nil
  show ?case
  proof (cases "pat @ ys")
    case Nil
    then show ?thesis by simp
  next
    case (Cons a l)
    then have "prefix pat (a # l)"
      by (metis prefixI)
    with Cons show ?thesis by simp
  qed
next
  case (Cons c xs)
  then show ?case by auto
qed

lemma indexOf_split:
  "indexOf s pat = Some i \<Longrightarrow> s = take i s @ pat @ drop (i + length pat) s"
proof (induction s arbitrary: i)
  case Nil
  then show ?case by (auto split: if_splits)
next
  case (Cons c s)
  show ?case
  proof (cases "prefix pat (c # s)")
    case True
    with Cons.prems have "i = 0" by simp
    with True show ?thesis by (auto simp: prefix_def)
  next
    case False
    with Cons.prems obtain j where "indexOf s pat = Some j" "i = Suc j"
      by auto
    with Cons.IH [of j] show ?thesis by simp
  qed
qed

lemma indexOf_take:
  "indexOf s pat = Some i \<Longrightarrow> pat \<noteq> [] \<Longrightarrow> indexOf (take i s) pat = None"
proof (induction s arbitrary: i)
  case Nil
  then show ?case by (auto split: if_splits)
next
  case (Cons c s)
  show ?case
  proof (cases "prefix pat (c # s)")
    case True
    with Cons.prems show ?thesis by simp
  next
    case False
    with Cons.prems obtain j where j: "indexOf s pat = Some j" "i = Suc j"
      by auto
    have "prefix (c # take j s) (c # s)"
      by (simp add: take_is_prefix)
    with False have "\<not> prefix pat (c # take j s)"
      using prefix_order.trans by blast
    with Cons.IH [OF j(1) Cons.prems(2)] j show ?thesis by simp
  qed
qed

lemma indexOf_mem:
  "indexOf s (c # pat) = Some i \<Longrightarrow> c \<in> set s"
proof -
  assume "indexOf s (c # pat) = Some i"
  from indexOf_split [OF this] have "s = take i s @ c # (pat @ drop (i + length (c # pat)) s)"
    by simp
  then show ?thesis
    by (metis in_set_conv_decomp)
qed

lemma indexOf_append_clean:
  "indexOf out ''%s'' = None \<Longrightarrow> out = [] \<or> last out \<noteq> CHR ''%'' \<Longrightarrow>
   indexOf (out @ rest) ''%s'' = map_option ((+) (length out)) (indexOf rest ''%s'')"
proof (induction out)
  case Nil
  then show ?case by (simp add: option.map_ident)
next
  case (Cons c out)
  from Cons.prems(1) have np: "\<not> prefix ''%s'' (c # out)" and none: "indexOf out ''%s'' = None"
    by (auto split: if_splits)
  have "\<not> prefix ''%s'' (c # out @ rest)"
  proof (cases out)
    case Nil
    with Cons.prems(2) show ?thesis by simp
  next
    case (Cons d out')
    with np show ?thesis by simp
  qed
  then have step: "indexOf ((c # out) @ rest) ''%s'' = map_option Suc (indexOf (out @ rest) ''%s'')"
    by auto
  have "out = [] \<or> last out \<noteq> CHR ''%''"
    using Cons.prems(2) by (auto split: if_splits)
  from Cons.IH [OF none this] show ?case
    unfolding step by (simp add: option.map_comp comp_def)
qed

lemma format_spec_no_placeholder:
  "indexOf s ''%s'' = None \<Longrightarrow> format_spec s args = s"
  by (cases args) simp_all

lemma format_agrees:
  assumes "\<forall>a \<in> set args. CHR ''$'' \<notin> set a \<and> CHR ''%'' \<notin> set a"
    and "indexOf rest ''%%s'' = None"
    and "indexOf out ''%s'' = None" and "out = [] \<or> last out \<noteq> CHR ''%''"
  shows "foldl replacer (out @ rest) args = out @ format_spec rest args"
  using assms
proof (induction args arbitrary: out rest)
  case Nil
  then show ?case by simp
next
  case (Cons a args)
  have clean: "\<forall>a \<in> set args. CHR ''$'' \<notin> set a \<and> CHR ''%'' \<notin> set a"
    and a: "CHR ''$'' \<notin> set a" "CHR ''%'' \<notin> set a"
    using Cons.prems(1) by simp_all
  have whole: "indexOf (out @ rest) ''%s'' = map_option ((+) (length out)) (indexOf rest ''%s'')"
    using Cons.prems(3,4) by (rule indexOf_append_clean)
  show ?case
  proof (cases "indexOf rest ''%s''")
    case None
    then have "replacer (out @ rest) a = out @ rest"
      by (simp add: replacer_def replace_def whole)
    moreover have "format_spec rest (a # args) = format_spec rest args"
      using None by (simp add: format_spec_no_placeholder)
    ultimately show ?thesis
      using Cons.IH [OF clean Cons.prems(2,3,4)] by simp
  next
    case (Some i)
    let ?pre = "take i rest" and ?post = "drop (i + 2) rest"
    have rest: "rest = ?pre @ ''%s'' @ ?post"
      using indexOf_split [OF Some] by simp
    have step: "replacer (out @ rest) a = (out @ ?pre @ a) @ ?post"
      using Some a(1) by (simp add: replacer_def replace_def whole get_substitution_plain)
    have pre_none: "indexOf ?pre ''%s'' = None"
      using indexOf_take [OF Some] by simp
    have pre_last: "?pre = [] \<or> last ?pre \<noteq> CHR ''%''"
    proof (rule ccontr)
      assume "\<not> (?pre = [] \<or> last ?pre \<noteq> CHR ''%'')"
      then have "?pre = butlast ?pre @ ''%''"
        by (metis append_butlast_last_id)
      with rest have "rest = butlast ?pre @ ''%%s'' @ ?post"
        by (metis append.assoc append_Cons append_Nil)
      then have "indexOf rest ''%%s'' \<noteq> None"
        by (metis indexOf_occurs)
      with Cons.prems(2) show False by simp
    qed
    have a_none: "indexOf a ''%s'' = None"
      using a(2) indexOf_mem [of a "CHR ''%''" "''s''"] by (cases "indexOf a ''%s''") auto
    have out_pre: "indexOf (out @ ?pre) ''%s'' = None"
      using indexOf_append_clean [OF Cons.prems(3,4), of ?pre] pre_none by simp
    have out_pre_last: "out @ ?pre = [] \<or> last (out @ ?pre) \<noteq> CHR ''%''"
    proof (cases "?pre = []")
      case True
      with Cons.prems(4) show ?thesis by simp
    next
      case False
      with pre_last show ?thesis by simp
    qed
    have inv1: "indexOf (out @ ?pre @ a) ''%s'' = None"
      using indexOf_append_clean [OF out_pre out_pre_last, of a] a_none by simp
    have inv2: "out @ ?pre @ a = [] \<or> last (out @ ?pre @ a) \<noteq> CHR ''%''"
    proof (cases "a = []")
      case True
      with out_pre_last show ?thesis by simp
    next
      case False
      then have "last a \<in> set a" by simp
      with a(2) have "last a \<noteq> CHR ''%''" by auto
      with False show ?thesis by simp
    qed
    have post: "indexOf ?post ''%%s'' = None"
    proof (rule ccontr)
      assume "indexOf ?post ''%%s'' \<noteq> None"
      then obtain j where "indexOf ?post ''%%s'' = Some j" by auto
      from indexOf_split [OF this] have "rest = (take (i + 2) rest @ take j ?post) @ ''%%s'' @ drop (j + length ''%%s'') ?post"
        by (metis append.assoc append_take_drop_id)
      then have "indexOf rest ''%%s'' \<noteq> None"
        by (metis indexOf_occurs)
      with Cons.prems(2) show False by simp
    qed
    have "foldl replacer ((out @ ?pre @ a) @ ?post) args = (out @ ?pre @ a) @ format_spec ?post args"
      using Cons.IH [OF clean post inv1 inv2] by simp
    then show ?thesis
      using Some by (simp add: step)
  qed
qed

lemma round_double_exact:
  assumes "\<bar>x\<bar> \<le> 2 ^ 53"
  shows "round_double x = x"
proof (cases "\<bar>x\<bar> = 2 ^ 53")
  case True
  then have "x = 2 ^ 53 \<or> x = - (2 ^ 53)"
    by linarith
  then show ?thesis
    by (auto simp: round_double_def compute_bitlen)
next
  case False
  with assms have "\<bar>x\<bar> < 2 ^ 53" by simp
  then have "nat \<bar>x\<bar> < 2 ^ 53"
    by (simp add: nat_less_iff)
  then have "floorlog 2 (nat \<bar>x\<bar>) \<le> 53"
    by (simp add: floorlog_le_iff)
  then have "bitlen \<bar>x\<bar> \<le> 53"
    by (simp add: bitlen_def)
  then show ?thesis
    by (simp add: round_double_def Let_def)
qed

lemma uuids_exact:
  "- (2 ^ 53) \<le> foo \<Longrightarrow> foo + int k \<le> 2 ^ 53 \<Longrightarrow>
   uuids k foo = (map (\<lambda>i. foo + int i) [0..<k], foo + int k)"
proof (induction k arbitrary: foo)
  case 0
  then show ?case by simp
next
  case (Suc k)
  have "\<bar>foo + 1\<bar> \<le> 2 ^ 53"
    using Suc.prems by simp
  then have one: "uuid foo = (foo, foo + 1)"
    by (simp add: uuid_def add_def round_double_exact)
  have "uuids k (foo + 1) = (map (\<lambda>i. foo + 1 + int i) [0..<k], foo + 1 + int k)"
    using Suc.prems by (intro Suc.IH) simp_all
  moreover have "map (\<lambda>i. foo + int i) [0..<Suc k] = foo # map (\<lambda>i. foo + 1 + int i) [0..<k]"
    by (simp add: upt_rec [of 0] map_Suc_upt [symmetric] del: upt_Suc) 
  ultimately show ?case
    by (simp add: one del: upt_Suc)
qed

section \<open>The claims about \<^verbatim>\<open>src/basic.js\<close>\<close>

text \<open>
  C1. Clicking an anchor that \<^verbatim>\<open>nav a\<close> matched when the script ran shows an alert whose
  message is \<^verbatim>\<open>You clicked on\<close>, a space, and the text content the anchor has at the time
  of the click, whatever clicks and additions to the document came between. It is the first
  thing the click shows, and the only one unless the anchor lies inside another matched
  anchor, whose listener the bubbling event reaches next.
\<close>

theorem click_alerts_anchor_text:
  assumes "run_actions as (bind_nav_links (loaded doc)) = Some p"
    and "r \<in> set (navLinks (loaded doc))"
  shows "\<exists>n rest p'. node_at (document p) r = Some n \<and> click r p = Some p' \<and>
           trace p' = trace p @ [PreventDefault, Alert (''You clicked on '' @ textContent n)] @ rest \<and>
           ((\<forall>q \<in> set (navLinks (loaded doc)). \<not> strict_prefix q r) \<longrightarrow> rest = [])"
proof -
  let ?M = "querySelectorAll doc [''nav'', ''a'']"
  let ?up = "rev (butlast (prefixes r))"
  from assms(2) have r: "r \<in> set ?M"
    by (simp add: navLinks_loaded)
  then have "has_tag ''a'' (node_at doc r)"
    by (simp add: nav_a_iff anchor_in_nav_def)
  then have "has_tag ''a'' (node_at (document p) r)"
    using run_actions_keeps_tags [OF bound_valid assms(1)] by (simp add: bound_fields)
  then obtain n where n: "node_at (document p) r = Some n"
    by (auto simp: has_tag_def split: option.splits)
  obtain j where own: "listeners_on p r ''click'' = [\<lparr>on_node = r, event_type = ''click'', fn_id = j, captured = r\<rparr>]"
    using later_listeners_on(2) [OF assms(1) r] by blast
  define rest where "rest = concat (map (\<lambda>l. shown (document p) (captured l)) (path_listeners p ''click'' ?up))"
  have pl: "path_listeners p ''click'' (event_path r) =
      \<lparr>on_node = r, event_type = ''click'', fn_id = j, captured = r\<rparr> # path_listeners p ''click'' ?up"
    by (simp add: event_path_Cons path_listeners_def own)
  have c: "click r p = Some (p\<lparr>trace := trace p @ shown (document p) r @ rest, navigated := navigated p\<rparr>)"
    using click_eq [OF later_listeners(2) [OF assms(1)], of r] n
    by (simp add: pl rest_def)
  have alone: "rest = []" if "\<forall>q \<in> set (navLinks (loaded doc)). \<not> strict_prefix q r"
  proof -
    have "listeners_on p q ''click'' = []" if "q \<in> set ?up" for q
    proof -
      from that have "strict_prefix q r" by (simp add: butlast_prefixes)
      with \<open>\<forall>q \<in> set (navLinks (loaded doc)). \<not> strict_prefix q r\<close> have "q \<notin> set ?M"
        by (auto simp: navLinks_loaded)
      then show ?thesis by (rule later_listeners_on(1) [OF assms(1)])
    qed
    then have "path_listeners p ''click'' ?up = []"
      by (simp add: path_listeners_def)
    then show ?thesis by (simp add: rest_def)
  qed
  let ?p' = "p\<lparr>trace := trace p @ shown (document p) r @ rest, navigated := navigated p\<rparr>"
  show ?thesis
    using n c alone
    by (intro exI [of _ n] exI [of _ rest] exI [of _ ?p']) (simp add: shown_def)
qed

text \<open>On the example page the link reads \<^verbatim>\<open>Home\<close> and the message is \<^verbatim>\<open>You clicked on Home\<close>.\<close>

theorem click_alerts_anchor_text_witness:
  "[0, 0] \<in> set (navLinks (loaded home_page)) \<and>
   list_all (\<lambda>q. \<not> strict_prefix q [0, 0]) (navLinks (loaded home_page)) \<and>
   click [0, 0] (bind_nav_links (loaded home_page)) =
     Some ((bind_nav_links (loaded home_page))\<lparr>trace := [PreventDefault, Alert ''You clicked on Home'']\<rparr>)"
proof -
  let ?p = "bind_nav_links (loaded home_page)"
  have a1: "run_actions [] ?p = Some ?p"
    by simp
  have a2: "[0, 0] \<in> set (navLinks (loaded home_page))"
    by code_simp
  have a3: "\<forall>q \<in> set (navLinks (loaded home_page)). \<not> strict_prefix q [0, 0]"
    by (simp add: navLinks_loaded querySelectorAll_def home_page_def strict_prefix_def)
  have n: "node_at (document ?p) [0, 0] = Some (Element ''a'' [Text ''Home''])"
    by code_simp
  have t: "trace ?p = []"
    by (simp add: bound_fields)
  from click_alerts_anchor_text [OF a1 a2] a3 n
  obtain p' where c: "click [0, 0] ?p = Some p'"
    and "trace p' = trace ?p @ [PreventDefault, Alert (''You clicked on '' @ textContent (Element ''a'' [Text ''Home'']))]"
    by auto
  then have "trace p' = [PreventDefault, Alert ''You clicked on Home'']"
    by (simp add: t)
  moreover have "click [0, 0] ?p = Some (?p\<lparr>trace := [PreventDefault, Alert ''You clicked on Home'']\<rparr>)"
    by code_simp
  ultimately show ?thesis
    using a2 a3 by (simp add: list_all_iff)
qed

text \<open>
  C2. Running the script on a freshly loaded document registers as many listeners as the
  document has \<^verbatim>\<open>a\<close> elements below a \<^verbatim>\<open>nav\<close> element, and on each node exactly one click
  listener if it is such an anchor and none otherwise; no listener of another type is
  registered. On a page that already has listeners (whose functions were created before,
  as every function of a running page was), the script adds that many to them.
\<close>

theorem one_listener_per_nav_anchor:
  "length (listeners (bind_nav_links (loaded doc))) = card {r. anchor_in_nav doc r} \<and>
   length (listeners_on (bind_nav_links (loaded doc)) r ty) =
     (if anchor_in_nav doc r \<and> ty = ''click'' then 1 else 0) \<and>
   ((\<forall>l \<in> set (listeners p). fn_id l < next_fn p) \<longrightarrow>
      length (listeners (bind_nav_links p)) = length (listeners p) + card {r. anchor_in_nav (document p) r})"
proof -
  let ?M = "querySelectorAll doc [''nav'', ''a'']"
  have count: "card {r. anchor_in_nav d r} = length (querySelectorAll d [''nav'', ''a''])" for d
  proof -
    have "{r. anchor_in_nav d r} = set (querySelectorAll d [''nav'', ''a''])"
      by (auto simp: nav_a_iff)
    then show ?thesis
      by (simp add: distinct_card navLinks_distinct)
  qed
  have total: "length (listeners (bind_nav_links (loaded doc))) = card {r. anchor_in_nav doc r}"
    by (simp add: count bound_fields closures_length)
  have own: "length (listeners_on (bind_nav_links (loaded doc)) r ty) =
     (if anchor_in_nav doc r \<and> ty = ''click'' then 1 else 0)"
  proof (cases "ty = ''click''")
    case True
    have r: "run_actions [] (bind_nav_links (loaded doc)) = Some (bind_nav_links (loaded doc))"
      by simp
    show ?thesis
      using later_listeners_on [OF r, of r] True by (auto simp: nav_a_iff)
  next
    case False
    have "filter (\<lambda>l. on_node l = r \<and> event_type l = ty) (closures k rs) = []" for k rs
      using False by (induction rs arbitrary: k) auto
    with False show ?thesis
      by (simp add: listeners_on_def bound_fields)
  qed
  have again: "length (listeners (bind_nav_links p)) = length (listeners p) + card {r. anchor_in_nav (document p) r}"
    if "\<forall>l \<in> set (listeners p). fn_id l < next_fn p"
    using fold_bind_link [OF that, of "navLinks p"]
    by (simp add: bind_nav_links_def count closures_length navLinks_def)
  from total own again show ?thesis by blast
qed

text \<open>
  The example page has two links in its navigation and one outside: two listeners, one on
  each of the two. Run a second time, the script adds two more, since every function it
  registers is a new object.
\<close>

theorem one_listener_per_nav_anchor_witness:
  "card {r. anchor_in_nav home_page r} = 2 \<and>
   length (listeners_on (bind_nav_links (loaded home_page)) [0, 1] ''click'') = 1 \<and>
   length (listeners_on (bind_nav_links (loaded home_page)) [1] ''click'') = 0 \<and>
   list_all (\<lambda>l. fn_id l < next_fn (bind_nav_links (loaded home_page)))
     (listeners (bind_nav_links (loaded home_page))) \<and>
   length (listeners (bind_nav_links (bind_nav_links (loaded home_page)))) = 4"
proof -
  let ?p = "bind_nav_links (loaded home_page)"
  have two: "length (listeners ?p) = 2"
    by code_simp
  have in_nav: "anchor_in_nav home_page [0, 1]" "\<not> anchor_in_nav home_page [1]"
    by code_simp+
  have fresh: "\<forall>l \<in> set (listeners ?p). fn_id l < next_fn ?p"
    by code_simp
  have doc: "document ?p = home_page"
    by (simp add: bound_fields)
  note c2 = one_listener_per_nav_anchor [of home_page _ _ ?p]
  have n: "card {r. anchor_in_nav home_page r} = 2"
    using c2 two by simp
  have "length (listeners (bind_nav_links ?p)) = length (listeners ?p) + card {r. anchor_in_nav (document ?p) r}"
    using c2 fresh by blast
  then have four: "length (listeners (bind_nav_links ?p)) = 4"
    by (simp add: two doc n)
  show ?thesis
    using n in_nav fresh four
      one_listener_per_nav_anchor [of home_page "[0, 1]" "''click''"]
      one_listener_per_nav_anchor [of home_page "[1]" "''click''"]
    by (simp add: list_all_iff)
qed

text \<open>
  C3. After the script has run, every sequence of clicks on anchors it matched runs to its
  end and leaves the flag of navigation unset: the document is never left. The reason is
  the second part: whenever the click listener runs, the first thing it adds to what the
  page shows is the call of \<^verbatim>\<open>preventDefault\<close>, before the alert, and the event, being
  cancelable, is canceled after it.
\<close>

theorem clicks_on_nav_anchors_never_navigate:
  "(set rs \<subseteq> set (navLinks (loaded doc)) \<longrightarrow>
      (\<exists>p'. run_actions (map Click rs) (bind_nav_links (loaded doc)) = Some p' \<and> \<not> navigated p')) \<and>
   (handler link (e, p) = Some (e', q) \<longrightarrow>
      (\<exists>msg. trace q = trace p @ [PreventDefault, Alert msg]) \<and> (cancelable e \<longrightarrow> canceled e'))"
proof
  show "set rs \<subseteq> set (navLinks (loaded doc)) \<longrightarrow>
      (\<exists>p'. run_actions (map Click rs) (bind_nav_links (loaded doc)) = Some p' \<and> \<not> navigated p')"
  proof
    assume "set rs \<subseteq> set (navLinks (loaded doc))"
    then have "set rs \<subseteq> set (querySelectorAll doc [''nav'', ''a''])"
      by (simp add: navLinks_loaded)
    from clicks_matched [OF bound_fields(2) navLinks_distinct bound_valid this]
    show "\<exists>p'. run_actions (map Click rs) (bind_nav_links (loaded doc)) = Some p' \<and> \<not> navigated p'"
      by (simp add: bound_fields)
  qed
  show "handler link (e, p) = Some (e', q) \<longrightarrow>
      (\<exists>msg. trace q = trace p @ [PreventDefault, Alert msg]) \<and> (cancelable e \<longrightarrow> canceled e')"
    by (auto simp: handler_def preventDefault_def alert_def split: option.splits)
qed

text \<open>
  Three clicks on the two links of the navigation of the example page leave it in place,
  while a click on the link outside the navigation, which has no listener, navigates.
\<close>

theorem clicks_on_nav_anchors_never_navigate_witness:
  "set [[0, 1], [0, 0], [0, 1]] \<subseteq> set (navLinks (loaded home_page)) \<and>
   map_option navigated (run_actions (map Click [[0, 1], [0, 0], [0, 1]]) (bind_nav_links (loaded home_page)))
     = Some False \<and>
   map_option navigated (click [1] (bind_nav_links (loaded home_page))) = Some True \<and>
   handler [0, 0] (\<lparr>etype = ''click'', target = [0, 0], cancelable = True, canceled = False\<rparr>, loaded home_page) =
     Some (\<lparr>etype = ''click'', target = [0, 0], cancelable = True, canceled = True\<rparr>,
           (loaded home_page)\<lparr>trace := [PreventDefault, Alert ''You clicked on Home'']\<rparr>)"
proof -
  have a: "set [[0, 1], [0, 0], [0, 1]] \<subseteq> set (navLinks (loaded home_page))"
    by code_simp
  have h: "handler [0, 0] (\<lparr>etype = ''click'', target = [0, 0], cancelable = True, canceled = False\<rparr>, loaded home_page) =
     Some (\<lparr>etype = ''click'', target = [0, 0], cancelable = True, canceled = True\<rparr>,
           (loaded home_page)\<lparr>trace := [PreventDefault, Alert ''You clicked on Home'']\<rparr>)"
    by code_simp
  have n: "map_option navigated (click [1] (bind_nav_links (loaded home_page))) = Some True"
    by code_simp
  from clicks_on_nav_anchors_never_navigate [of "[[0, 1], [0, 0], [0, 1]]" home_page "[0, 0]" _ _ _ _] a
  obtain p' where "run_actions (map Click [[0, 1], [0, 0], [0, 1]]) (bind_nav_links (loaded home_page)) = Some p'"
    "\<not> navigated p'"
    by blast
  then have "map_option navigated (run_actions (map Click [[0, 1], [0, 0], [0, 1]]) (bind_nav_links (loaded home_page)))
     = Some False"
    by simp
  with a h n show ?thesis by simp
qed




text \<open>
  C5. When the document has no \<^verbatim>\<open>nav\<close> element, or no \<^verbatim>\<open>a\<close> element, the selector matches
  nothing; and whenever the selector matches nothing, the script returns the page exactly as
  it found it: no listener is attached, and there is no error to return, the loop simply
  runs zero times.
\<close>

theorem no_match_binds_nothing:
  "(''nav'' \<notin> set (tag_names (document p)) \<or> ''a'' \<notin> set (tag_names (document p)) \<longrightarrow> navLinks p = []) \<and>
   (navLinks p = [] \<longrightarrow> bind_nav_links p = p)"
proof -
  have "matching [''nav'', ''a''] (document p) = []"
    if "''nav'' \<notin> set (tag_names (document p)) \<or> ''a'' \<notin> set (tag_names (document p))"
    using that matching_no_tag [of "''nav''" "[''nav'', ''a'']" "document p"]
      matching_no_tag [of "''a''" "[''nav'', ''a'']" "document p"]
    by auto
  then show ?thesis
    by (auto simp: navLinks_def querySelectorAll_def bind_nav_links_def)
qed

theorem no_match_binds_nothing_witness:
  "''nav'' \<notin> set (tag_names (document (loaded plain_page))) \<and>
   navLinks (loaded plain_page) = [] \<and>
   bind_nav_links (loaded plain_page) = loaded plain_page \<and>
   listeners (bind_nav_links (loaded plain_page)) = []"
proof -
  have a: "''nav'' \<notin> set (tag_names (document (loaded plain_page)))"
    by code_simp
  with no_match_binds_nothing [of "loaded plain_page"]
  have "navLinks (loaded plain_page) = []" "bind_nav_links (loaded plain_page) = loaded plain_page"
    by simp_all
  with a show ?thesis
    by (simp add: loaded_def)
qed

text \<open>
  C6. The click listener, run on a page where its link is a node of the document, ends and
  leaves everything as it was except for two things: the canceled flag of its event, and
  the trace, which gains the call of \<^verbatim>\<open>preventDefault\<close> and the alert. The document, the
  listeners and the navigation flag are the same. Nothing is kept from one click to the
  next: a second click on the same matched anchor shows again what the first one showed.
\<close>

theorem handler_leaves_page_alone:
  "(node_at (document p) link = Some n \<longrightarrow>
      handler link (e, p) =
        Some (e\<lparr>canceled := canceled e \<or> cancelable e\<rparr>,
              p\<lparr>trace := trace p @ [PreventDefault, Alert (''You clicked on '' @ textContent n)]\<rparr>)) \<and>
   (run_actions as (bind_nav_links (loaded doc)) = Some q \<and> r \<in> set (navLinks (loaded doc)) \<longrightarrow>
      (\<exists>shown_now. shown_now \<noteq> [] \<and>
         click r q = Some (q\<lparr>trace := trace q @ shown_now\<rparr>) \<and>
         click r (q\<lparr>trace := trace q @ shown_now\<rparr>) = Some (q\<lparr>trace := trace q @ shown_now @ shown_now\<rparr>)))"
proof (intro conjI impI)
  assume "node_at (document p) link = Some n"
  then show "handler link (e, p) =
        Some (e\<lparr>canceled := canceled e \<or> cancelable e\<rparr>,
              p\<lparr>trace := trace p @ [PreventDefault, Alert (''You clicked on '' @ textContent n)]\<rparr>)"
    by (rule handler_Some)
next
  assume a: "run_actions as (bind_nav_links (loaded doc)) = Some q \<and> r \<in> set (navLinks (loaded doc))"
  let ?M = "querySelectorAll doc [''nav'', ''a'']"
  let ?T = "concat (map (\<lambda>l. shown (document q) (captured l)) (path_listeners q ''click'' (event_path r)))"
  let ?q = "q\<lparr>trace := trace q @ ?T\<rparr>"
  from a have run: "run_actions as (bind_nav_links (loaded doc)) = Some q" and r: "r \<in> set ?M"
    by (simp_all add: navLinks_loaded)
  have v: "listeners_valid q"
    using later_listeners(2) [OF run] .
  obtain j where own: "listeners_on q r ''click'' = [\<lparr>on_node = r, event_type = ''click'', fn_id = j, captured = r\<rparr>]"
    using later_listeners_on(2) [OF run r] by blast
  then have "\<lparr>on_node = r, event_type = ''click'', fn_id = j, captured = r\<rparr> \<in> set (listeners q)"
    using listeners_on_subset [of q r "''click''"] by simp
  then have valid: "node_at (document q) r \<noteq> None"
    using v by (auto simp: listeners_valid_def)
  have pl: "path_listeners q ''click'' (event_path r) =
      \<lparr>on_node = r, event_type = ''click'', fn_id = j, captured = r\<rparr> #
        path_listeners q ''click'' (rev (butlast (prefixes r)))"
    by (simp add: event_path_Cons path_listeners_def own)
  then have ne: "path_listeners q ''click'' (event_path r) \<noteq> []"
    by simp
  have T: "?T \<noteq> []"
    using valid by (auto simp: pl shown_def)
  have c1: "click r q = Some ?q"
    using click_eq [OF v valid] ne by simp
  have v': "listeners_valid ?q"
    using v by (simp add: listeners_valid_def)
  have same: "path_listeners ?q ''click'' (event_path r) = path_listeners q ''click'' (event_path r)"
    by (simp add: path_listeners_def listeners_on_def)
  have c2: "click r ?q = Some (q\<lparr>trace := trace q @ ?T @ ?T\<rparr>)"
    using click_eq [OF v', of r] valid ne by (simp add: same)
  show "\<exists>shown_now. shown_now \<noteq> [] \<and>
         click r q = Some (q\<lparr>trace := trace q @ shown_now\<rparr>) \<and>
         click r (q\<lparr>trace := trace q @ shown_now\<rparr>) = Some (q\<lparr>trace := trace q @ shown_now @ shown_now\<rparr>)"
    using T c1 c2 by (intro exI [of _ ?T]) simp
qed

theorem handler_leaves_page_alone_witness:
  "node_at (document (loaded home_page)) [0, 1] = Some (Element ''a'' [Text ''About'']) \<and>
   handler [0, 1] (\<lparr>etype = ''click'', target = [0, 1], cancelable = True, canceled = False\<rparr>, loaded home_page) =
     Some (\<lparr>etype = ''click'', target = [0, 1], cancelable = True, canceled = True\<rparr>,
           (loaded home_page)\<lparr>trace := [PreventDefault, Alert ''You clicked on About'']\<rparr>) \<and>
   [0, 1] \<in> set (navLinks (loaded home_page)) \<and>
   run_actions [Click [0, 1], Click [0, 1]] (bind_nav_links (loaded home_page)) =
     Some ((bind_nav_links (loaded home_page))\<lparr>trace :=
        [PreventDefault, Alert ''You clicked on About'', PreventDefault, Alert ''You clicked on About'']\<rparr>)"
proof -
  let ?e = "\<lparr>etype = ''click'', target = [0, 1], cancelable = True, canceled = False\<rparr>"
  have n: "node_at (document (loaded home_page)) [0, 1] = Some (Element ''a'' [Text ''About''])"
    by code_simp
  have m: "[0, 1] \<in> set (navLinks (loaded home_page))"
    by code_simp
  have two: "run_actions [Click [0, 1], Click [0, 1]] (bind_nav_links (loaded home_page)) =
     Some ((bind_nav_links (loaded home_page))\<lparr>trace :=
        [PreventDefault, Alert ''You clicked on About'', PreventDefault, Alert ''You clicked on About'']\<rparr>)"
    by code_simp
  from handler_leaves_page_alone [of "loaded home_page" "[0, 1]" "Element ''a'' [Text ''About'']" ?e] n
  have "handler [0, 1] (?e, loaded home_page) =
     Some (?e\<lparr>canceled := canceled ?e \<or> cancelable ?e\<rparr>,
           (loaded home_page)\<lparr>trace := trace (loaded home_page) @
              [PreventDefault, Alert (''You clicked on '' @ textContent (Element ''a'' [Text ''About'']))]\<rparr>)"
    by blast
  then have "handler [0, 1] (?e, loaded home_page) =
     Some (\<lparr>etype = ''click'', target = [0, 1], cancelable = True, canceled = True\<rparr>,
           (loaded home_page)\<lparr>trace := [PreventDefault, Alert ''You clicked on About'']\<rparr>)"
    by (simp add: loaded_def)
  with n m two show ?thesis by simp
qed

text \<open>
  C7. Two runs of the click listener, on any two pages, for any two events and any two
  links whose nodes have the same text content, show the same message. The rest of the
  page, the event and what happened before play no part.
\<close>

theorem handler_message_depends_on_text_only:
  assumes "node_at (document p1) link1 = Some n1" and "node_at (document p2) link2 = Some n2"
    and "textContent n1 = textContent n2"
  shows "\<exists>e1' q1 e2' q2 msg.
           handler link1 (e1, p1) = Some (e1', q1) \<and> handler link2 (e2, p2) = Some (e2', q2) \<and>
           trace q1 = trace p1 @ [PreventDefault, Alert msg] \<and>
           trace q2 = trace p2 @ [PreventDefault, Alert msg]"
  using assms by (simp add: handler_Some)

text \<open>
  Two pages whose links read \<^verbatim>\<open>Home\<close>, in one node and split over two; different events,
  different histories; the same message.
\<close>

theorem handler_message_depends_on_text_only_witness:
  "node_at (document (loaded home_page)) [0, 0] = Some (Element ''a'' [Text ''Home'']) \<and>
   node_at (document ((loaded split_page)\<lparr>trace := [Alert ''earlier''], navigated := True\<rparr>)) [0] =
     Some (Element ''a'' [Text ''Ho'', Element ''b'' [Text ''me'']]) \<and>
   textContent (Element ''a'' [Text ''Home'']) = textContent (Element ''a'' [Text ''Ho'', Element ''b'' [Text ''me'']]) \<and>
   map_option (trace \<circ> snd)
     (handler [0, 0] (\<lparr>etype = ''click'', target = [0, 0], cancelable = True, canceled = False\<rparr>, loaded home_page))
     = Some [PreventDefault, Alert ''You clicked on Home''] \<and>
   map_option (trace \<circ> snd)
     (handler [0] (\<lparr>etype = ''click'', target = [0, 1], cancelable = False, canceled = False\<rparr>,
                   (loaded split_page)\<lparr>trace := [Alert ''earlier''], navigated := True\<rparr>))
     = Some [Alert ''earlier'', PreventDefault, Alert ''You clicked on Home'']"
proof -
  let ?p2 = "(loaded split_page)\<lparr>trace := [Alert ''earlier''], navigated := True\<rparr>"
  let ?e1 = "\<lparr>etype = ''click'', target = [0, 0], cancelable = True, canceled = False\<rparr>"
  let ?e2 = "\<lparr>etype = ''click'', target = [0, 1], cancelable = False, canceled = False\<rparr>"
  have a1: "node_at (document (loaded home_page)) [0, 0] = Some (Element ''a'' [Text ''Home''])"
    by code_simp
  have a2: "node_at (document ?p2) [0] = Some (Element ''a'' [Text ''Ho'', Element ''b'' [Text ''me'']])"
    by code_simp
  have a3: "textContent (Element ''a'' [Text ''Home'']) = textContent (Element ''a'' [Text ''Ho'', Element ''b'' [Text ''me'']])"
    by simp
  have t1: "trace (loaded home_page) = []" and t2: "trace ?p2 = [Alert ''earlier'']"
    by (simp_all add: loaded_def)
  have h1: "map_option (trace \<circ> snd) (handler [0, 0] (?e1, loaded home_page))
      = Some [PreventDefault, Alert ''You clicked on Home'']"
    by code_simp
  from handler_message_depends_on_text_only [OF a1 a2 a3, of ?e1 ?e2]
  obtain e1' q1 e2' q2 msg where
    "handler [0, 0] (?e1, loaded home_page) = Some (e1', q1)" and
    h2: "handler [0] (?e2, ?p2) = Some (e2', q2)" and
    "trace q1 = trace (loaded home_page) @ [PreventDefault, Alert msg]" and
    "trace q2 = trace ?p2 @ [PreventDefault, Alert msg]"
    by blast
  with h1 t1 t2 have "trace q2 = [Alert ''earlier'', PreventDefault, Alert ''You clicked on Home'']"
    by simp
  with h2 have "map_option (trace \<circ> snd) (handler [0] (?e2, ?p2))
      = Some [Alert ''earlier'', PreventDefault, Alert ''You clicked on Home'']"
    by simp
  with a1 a2 a3 h1 show ?thesis
    by (simp only: simp_thms)
qed

section \<open>The claims about the functions of the style guide\<close>

text \<open>
  C8. For every function \<open>fn\<close>, world and sequence of calls of the wrapper that
  \<^verbatim>\<open>once(fn)\<close> returns: the first call passes its receiver and arguments to \<open>fn\<close> and
  the world is left as that one invocation leaves it; every later call returns
  \<^verbatim>\<open>undefined\<close> and changes nothing. Counted, \<open>fn\<close> is entered exactly once as soon as
  there is a first call (and not at all before it), also when that invocation throws.
\<close>

theorem once_invokes_fn_on_first_call_only:
  "call_each (snd (once fn)) (c # cs) (fst (once fn), w) =
     ((case fst (fn (fst c) (snd c) w) of Inl x \<Rightarrow> Inl x | Inr v \<Rightarrow> Inr ()) # replicate (length cs) (Inr ()),
      (True, snd (fn (fst c) (snd c) w))) \<and>
   fst (snd (snd (call_each (snd (once (counting fn))) (c # cs) (fst (once (counting fn)), (0, w))))) = 1 \<and>
   call_each (snd (once fn)) [] (fst (once fn), w) = ([], (False, w))"
proof -
  have count: "snd (counting fn (fst c) (snd c) (0, w)) = (1, snd (fn (fst c) (snd c) w))"
    by (simp add: counting_def split: prod.splits)
  show ?thesis
    unfolding once_def fst_conv snd_conv call_each_run_first
    by (simp add: count)
qed

theorem once_invokes_fn_on_first_call_only_witness:
  "call_each (snd (once logger)) [(1, ''a''), (2, ''b''), (3, ''c'')] (fst (once logger), []) =
     ([Inr (), Inr (), Inr ()], (True, [(1, ''a'')])) \<and>
   call_each (snd (once logger)) [(1, ''boom''), (2, ''b'')] (fst (once logger), []) =
     ([Inl ''thrown'', Inr ()], (True, [(1, ''boom'')])) \<and>
   call_each logger [(1, ''a''), (2, ''b'')] [] = ([Inr 1, Inr 2], [(1, ''a''), (2, ''b'')])"
proof -
  have l1: "logger 1 ''a'' [] = (Inr 1, [(1, ''a'')])" and l2: "logger 1 ''boom'' [] = (Inl ''thrown'', [(1, ''boom'')])"
    by (simp_all add: logger_def)
  have "call_each (snd (once logger)) [(1, ''a''), (2, ''b''), (3, ''c'')] (fst (once logger), []) =
     ([Inr (), Inr (), Inr ()], (True, [(1, ''a'')]))"
    using once_invokes_fn_on_first_call_only [of logger "(1, ''a'')" "[(2, ''b''), (3, ''c'')]" "[]"]
    by (simp only: fst_conv snd_conv l1 sum.case list.size) simp
  moreover have "call_each (snd (once logger)) [(1, ''boom''), (2, ''b'')] (fst (once logger), []) =
     ([Inl ''thrown'', Inr ()], (True, [(1, ''boom'')]))"
    using once_invokes_fn_on_first_call_only [of logger "(1, ''boom'')" "[(2, ''b'')]" "[]"]
    by (simp only: fst_conv snd_conv l2 sum.case list.size) simp
  moreover have "call_each logger [(1, ''a''), (2, ''b'')] [] = ([Inr 1, Inr 2], [(1, ''a''), (2, ''b'')])"
    by (simp add: logger_def)
  ultimately show ?thesis by (simp only: simp_thms)
qed

text \<open>
  C9, as stated, fails. Each step searches the text produced so far from its start, so a
  \<^verbatim>\<open>%s\<close> that an earlier argument brought in is the one replaced next, not the next one
  of the initial string; and \<^verbatim>\<open>replace\<close> expands the replacement patterns of the
  argument, so \<^verbatim>\<open>$$\<close> comes out as one dollar sign.
\<close>

theorem format_rescans_and_expands_counterexample:
  "format [''%s and %s'', ''%s'', ''x''] = Str ''x and %s'' \<and>
   format_spec ''%s and %s'' [''%s'', ''x''] = ''%s and x'' \<and>
   format [''costs %s'', ''$$5''] = Str ''costs $5'' \<and>
   format_spec ''costs %s'' [''$$5''] = ''costs $$5''"
  by code_simp

text \<open>
  C9, amended. When no argument after the first contains \<^verbatim>\<open>$\<close> or \<^verbatim>\<open>%\<close>, and no
  \<^verbatim>\<open>%s\<close> of the initial string has a \<^verbatim>\<open>%\<close> right before it, \<^verbatim>\<open>format\<close> is the positional
  substitution: from left to right, each argument takes the place of the first remaining
  \<^verbatim>\<open>%s\<close> of the initial string, and arguments left over are dropped. A single step, for
  an argument without \<^verbatim>\<open>$\<close>, puts the argument in the place of the first \<^verbatim>\<open>%s\<close> of the
  text produced so far. In any case, a step whose text has no \<^verbatim>\<open>%s\<close> returns the text
  unchanged, and \<^verbatim>\<open>format\<close> of a single argument returns that argument.
\<close>

theorem format_fills_placeholders_in_order:
  "((\<forall>a \<in> set args. CHR ''$'' \<notin> set a \<and> CHR ''%'' \<notin> set a) \<and> indexOf initial ''%%s'' = None \<longrightarrow>
      format (initial # args) = Str (format_spec initial args)) \<and>
   (CHR ''$'' \<notin> set replacement \<and> indexOf text ''%s'' = Some i \<longrightarrow>
      replacer text replacement = take i text @ replacement @ drop (i + 2) text) \<and>
   (indexOf text ''%s'' = None \<longrightarrow> replacer text replacement = text) \<and>
   format [initial] = Str initial"
proof (intro conjI impI)
  assume "(\<forall>a \<in> set args. CHR ''$'' \<notin> set a \<and> CHR ''%'' \<notin> set a) \<and> indexOf initial ''%%s'' = None"
  then have "foldl replacer ([] @ initial) args = [] @ format_spec initial args"
    by (intro format_agrees) simp_all
  then show "format (initial # args) = Str (format_spec initial args)"
    by (simp add: format_def)
next
  assume "CHR ''$'' \<notin> set replacement \<and> indexOf text ''%s'' = Some i"
  then show "replacer text replacement = take i text @ replacement @ drop (i + 2) text"
    by (simp add: replacer_def replace_def get_substitution_plain)
next
  assume "indexOf text ''%s'' = None"
  then show "replacer text replacement = text"
    by (simp add: replacer_def replace_def)
next
  show "format [initial] = Str initial"
    by (simp add: format_def)
qed

text \<open>
  A percent sign that is no placeholder, an argument that begins with \<^verbatim>\<open>s\<close>, one argument
  too many; and a text without placeholder.
\<close>

theorem format_fills_placeholders_in_order_witness:
  "list_all (\<lambda>a. CHR ''$'' \<notin> set a \<and> CHR ''%'' \<notin> set a) [''Ann'', ''sam'', ''extra''] \<and>
   indexOf ''100% of %s meet %s!'' ''%%s'' = None \<and>
   format [''100% of %s meet %s!'', ''Ann'', ''sam'', ''extra''] = Str ''100% of Ann meet sam!'' \<and>
   indexOf ''to %s or %s'' ''%s'' = Some 3 \<and>
   replacer ''to %s or %s'' ''%s'' = ''to %s or %s'' \<and>
   indexOf ''no placeholder'' ''%s'' = None \<and>
   replacer ''no placeholder'' ''dropped'' = ''no placeholder''"
proof -
  have a: "\<forall>a \<in> set [''Ann'', ''sam'', ''extra'']. CHR ''$'' \<notin> set a \<and> CHR ''%'' \<notin> set a"
    by simp
  have b: "indexOf ''100% of %s meet %s!'' ''%%s'' = None"
    by code_simp
  have c: "indexOf ''no placeholder'' ''%s'' = None"
    by code_simp
  have d: "CHR ''$'' \<notin> set ''%s''" "indexOf ''to %s or %s'' ''%s'' = Some 3"
    by code_simp+
  have s: "format_spec ''100% of %s meet %s!'' [''Ann'', ''sam'', ''extra''] = ''100% of Ann meet sam!''"
    by code_simp
  from format_fills_placeholders_in_order
    [of "[''Ann'', ''sam'', ''extra'']" "''100% of %s meet %s!''" "''%s''" "''to %s or %s''" 3] a b d
  have one: "format [''100% of %s meet %s!'', ''Ann'', ''sam'', ''extra''] =
      Str (format_spec ''100% of %s meet %s!'' [''Ann'', ''sam'', ''extra''])"
    and two: "replacer ''to %s or %s'' ''%s'' = take 3 ''to %s or %s'' @ ''%s'' @ drop (3 + 2) ''to %s or %s''"
    by blast+
  from format_fills_placeholders_in_order [of _ _ "''dropped''" "''no placeholder''"] c
  have three: "replacer ''no placeholder'' ''dropped'' = ''no placeholder''"
    by blast
  from two have two': "replacer ''to %s or %s'' ''%s'' = ''to %s or %s''"
    by simp
  from a b c d s one two' three show ?thesis
    by (simp only: list_all_iff simp_thms)
qed

text \<open>
  C10, as stated, fails. The counter is a double: at \<open>2 ^ 53\<close> the sum with one is not
  a double and rounds back to \<open>2 ^ 53\<close>, so \<^verbatim>\<open>uuid\<close> returns the same value again and
  again.
\<close>

theorem uuid_stalls_at_two_to_53_counterexample:
  "util \<lparr>start = Some 9007199254740992\<rparr> = 2 ^ 53 \<and>
   uuids 3 (util \<lparr>start = Some 9007199254740992\<rparr>) =
     ([9007199254740992, 9007199254740992, 9007199254740992], 9007199254740992)"
  by code_simp

text \<open>
  C10, amended. The counter starts at \<^verbatim>\<open>options.start\<close> when that is truthy and at 0
  otherwise. As long as the counter stays between \<open>- 2 ^ 53\<close> and \<open>2 ^ 53\<close>, each call
  of \<^verbatim>\<open>uuid\<close> returns the current counter and adds one to it, so that \<open>k\<close> calls in a
  row return the \<open>k\<close> consecutive integers from the start value on.
\<close>

theorem uuid_counts_up_from_start:
  "(truthy (start options) \<longrightarrow> start options = Some (util options)) \<and>
   (\<not> truthy (start options) \<longrightarrow> util options = 0) \<and>
   (- (2 ^ 53) \<le> util options \<and> util options + int k \<le> 2 ^ 53 \<longrightarrow>
      uuids k (util options) = (map (\<lambda>i. util options + int i) [0..<k], util options + int k))"
  by (auto simp: uuids_exact util_def reset_def truthy_def split: option.splits)

theorem uuid_counts_up_from_start_witness:
  "truthy (start \<lparr>start = Some 5\<rparr>) \<and> util \<lparr>start = Some 5\<rparr> = 5 \<and>
   \<not> truthy (start \<lparr>start = Some 0\<rparr>) \<and> \<not> truthy (start \<lparr>start = None\<rparr>) \<and> util \<lparr>start = None\<rparr> = 0 \<and>
   - (2 ^ 53) \<le> util \<lparr>start = Some 5\<rparr> \<and> util \<lparr>start = Some 5\<rparr> + int 3 \<le> 2 ^ 53 \<and>
   uuids 3 (util \<lparr>start = Some 5\<rparr>) = ([5, 6, 7], 8) \<and>
   uuids 2 (util \<lparr>start = Some 9007199254740990\<rparr>) = ([9007199254740990, 9007199254740991], 9007199254740992)"
proof -
  have t: "truthy (start \<lparr>start = Some 5\<rparr>)" "\<not> truthy (start \<lparr>start = Some 0\<rparr>)" "\<not> truthy (start \<lparr>start = None\<rparr>)"
    by (simp_all add: truthy_def)
  have u: "util \<lparr>start = Some 5\<rparr> = 5" "util \<lparr>start = None\<rparr> = 0"
    using uuid_counts_up_from_start [of "\<lparr>start = Some 5\<rparr>"] uuid_counts_up_from_start [of "\<lparr>start = None\<rparr>"] t
    by simp_all
  have "uuids 3 (util \<lparr>start = Some 5\<rparr>) = (map (\<lambda>i. util \<lparr>start = Some 5\<rparr> + int i) [0..<3], util \<lparr>start = Some 5\<rparr> + int 3)"
    using uuid_counts_up_from_start [of "\<lparr>start = Some 5\<rparr>" 3] by (simp add: u)
  then have a: "uuids 3 (util \<lparr>start = Some 5\<rparr>) = ([5, 6, 7], 8)"
    by (simp add: u upt_rec)
  have v: "util \<lparr>start = Some 9007199254740990\<rparr> = 9007199254740990"
    by (simp add: util_def reset_def truthy_def)
  have "uuids 2 (util \<lparr>start = Some 9007199254740990\<rparr>) =
      (map (\<lambda>i. util \<lparr>start = Some 9007199254740990\<rparr> + int i) [0..<2], util \<lparr>start = Some 9007199254740990\<rparr> + int 2)"
    using uuid_counts_up_from_start [of "\<lparr>start = Some 9007199254740990\<rparr>" 2] by (simp add: v)
  then have b: "uuids 2 (util \<lparr>start = Some 9007199254740990\<rparr>) = ([9007199254740990, 9007199254740991], 9007199254740992)"
    by (simp add: v upt_rec)
  from t u a b show ?thesis by simp
qed

end
